theory Spec2Isabelle
  imports Main
begin

section \<open>Values exchanged with the collaborators\<close>

text \<open>
  \<^verbatim>\<open>TxInfo\<close> is imported from \<^verbatim>\<open>./bitcore\<close>; this file reads only its \<^verbatim>\<open>id\<close>
  and passes the rest through. The record keeps the id and an opaque payload (block
  context and raw transaction).
\<close>

record TxInfo =
  tx_id :: string
  tx_payload :: string

text \<open>
  What a rejected promise or a thrown exception carries. \<open>TypeError\<close> is the
  exception of the JavaScript runtime (calling something that is not a function);
  \<open>Failure\<close> stands for whatever a collaborator (worker, blockchain backend) rejects
  with.
\<close>

datatype error = TypeError string | Failure string

text \<open>
  A block is named by its hash or by its height. The source stores both kinds in the
  same fields, so one type holds both.
\<close>

datatype blockval = Hash string | Height int

text \<open>The test \<^verbatim>\<open>if (lastSeenBlock)\<close>: null, the empty string and 0 are falsy.\<close>

fun truthy :: "blockval option \<Rightarrow> bool" where
  "truthy None = False"
| "truthy (Some (Hash h)) = (h \<noteq> [])"
| "truthy (Some (Height n)) = (n \<noteq> 0)"


section \<open>TxDatabase\<close>

text \<open>
  \<^verbatim>\<open>indexes\<close> maps a transaction id to its internal index, \<^verbatim>\<open>infos\<close> maps an
  internal index to the stored record. Both are objects without prototype, so every
  key is an own key and an absent key reads as \<^verbatim>\<open>undefined\<close> (here \<open>None\<close>).
\<close>

record TxDatabase =
  db_indexes :: "string \<rightharpoonup> nat"
  db_infos :: "nat \<rightharpoonup> TxInfo"
  db_nextIndex :: nat

definition TxDatabase_new :: TxDatabase where
  "TxDatabase_new = \<lparr>db_indexes = Map.empty, db_infos = Map.empty, db_nextIndex = 0\<rparr>"

definition db_indexOf :: "TxDatabase \<Rightarrow> TxInfo \<Rightarrow> nat option" where
  "db_indexOf db info = db_indexes db (tx_id info)"

definition db_infoOf :: "TxDatabase \<Rightarrow> nat \<Rightarrow> TxInfo option" where
  "db_infoOf db index = db_infos db index"

definition db_infoOfId :: "TxDatabase \<Rightarrow> string \<Rightarrow> TxInfo option" where
  "db_infoOfId db k = (case db_indexes db k of None \<Rightarrow> None | Some index \<Rightarrow> db_infos db index)"

text \<open>
  \<^verbatim>\<open>update(info)\<close>: an id that is not yet indexed takes \<^verbatim>\<open>nextIndex++\<close>; the record
  is then written at the index found or taken.
\<close>

definition db_update :: "TxInfo \<Rightarrow> TxDatabase \<Rightarrow> TxDatabase" where
  "db_update info db =
     (case db_indexes db (tx_id info) of
        None \<Rightarrow>
          db\<lparr>db_indexes := (db_indexes db)(tx_id info \<mapsto> db_nextIndex db),
             db_infos := (db_infos db)(db_nextIndex db \<mapsto> info),
             db_nextIndex := Suc (db_nextIndex db)\<rparr>
      | Some index \<Rightarrow>
          db\<lparr>db_infos := (db_infos db)(index \<mapsto> info)\<rparr>)"

text \<open>
  \<^verbatim>\<open>restore(data)\<close> runs \<^verbatim>\<open>update(TxInfo.fromJSON(item))\<close> for each item, first to
  last, on the database as it stands. \<^verbatim>\<open>TxInfo.fromJSON\<close> lives in \<^verbatim>\<open>./bitcore\<close> and
  is a parameter here.
\<close>

definition db_restore :: "('j \<Rightarrow> TxInfo) \<Rightarrow> 'j list \<Rightarrow> TxDatabase \<Rightarrow> TxDatabase" where
  "db_restore fromJSON data db = fold (\<lambda>item. db_update (fromJSON item)) data db"

text \<open>
  The shape every database built by the constructor, \<^verbatim>\<open>update\<close> and \<^verbatim>\<open>restore\<close>
  has: the internal indices in use are exactly \<open>0, \<dots>, nextIndex - 1\<close>, no two ids
  share one, and the record at an id's index carries that id.
\<close>

definition TxDatabase_inv :: "TxDatabase \<Rightarrow> bool" where
  "TxDatabase_inv db \<longleftrightarrow>
     (\<forall>k i. db_indexes db k = Some i \<longrightarrow> i < db_nextIndex db) \<and>
     (\<forall>i. i < db_nextIndex db \<longrightarrow> (\<exists>k. db_indexes db k = Some i)) \<and>
     (\<forall>k k' i. db_indexes db k = Some i \<longrightarrow> db_indexes db k' = Some i \<longrightarrow> k = k') \<and>
     dom (db_infos db) = {..<db_nextIndex db} \<and>
     (\<forall>k i. db_indexes db k = Some i \<longrightarrow> (\<exists>info. db_infos db i = Some info \<and> tx_id info = k))"

section \<open>ChainHistory\<close>

text \<open>
  \<^verbatim>\<open>histories\<close> maps an address index to the list of records seen for it. The
  elements are what \<^verbatim>\<open>TxDatabase.infoOf\<close> returned on restore, so an element can be
  \<^verbatim>\<open>undefined\<close> (\<open>None\<close>). The history holds a reference to its database; the
  discovery reaches the database only through it, so the record nests it.
\<close>

record ChainHistory =
  hist_database :: TxDatabase
  hist_histories :: "nat \<rightharpoonup> TxInfo option list"
  hist_nextIndex :: nat
  hist_untilBlock :: "blockval option"

definition ChainHistory_new :: "TxDatabase \<Rightarrow> ChainHistory" where
  "ChainHistory_new database =
     \<lparr>hist_database = database, hist_histories = Map.empty, hist_nextIndex = 0,
      hist_untilBlock = None\<rparr>"

text \<open>
  The serialised form \<^verbatim>\<open>{untilBlock, list}\<close>: \<^verbatim>\<open>list\<close> is a positional array whose
  holes and nulls (\<open>None\<close>) stand for address indices without history.
\<close>

record history_data =
  hd_untilBlock :: "blockval option"
  hd_list :: "nat list option list"

text \<open>
  The loop of \<^verbatim>\<open>restore\<close>, at position \<open>index\<close> with the rest of \<^verbatim>\<open>data.list\<close> still
  to visit: a null entry is skipped (\<^verbatim>\<open>continue\<close>); any other is mapped through
  \<^verbatim>\<open>database.infoOf\<close>, stored at \<open>index\<close>, and \<^verbatim>\<open>nextIndex\<close> is raised to
  \<open>index + 1\<close> when it is not already beyond.
\<close>

fun hist_restore_loop :: "nat \<Rightarrow> nat list option list \<Rightarrow> ChainHistory \<Rightarrow> ChainHistory" where
  "hist_restore_loop index [] h = h"
| "hist_restore_loop index (None # rest) h = hist_restore_loop (Suc index) rest h"
| "hist_restore_loop index (Some indexes # rest) h =
     hist_restore_loop (Suc index) rest
       (h\<lparr>hist_histories := (hist_histories h)(index \<mapsto> map (db_infoOf (hist_database h)) indexes),
          hist_nextIndex := (if hist_nextIndex h \<le> index then index + 1 else hist_nextIndex h)\<rparr>)"

definition hist_restore :: "history_data \<Rightarrow> ChainHistory \<Rightarrow> ChainHistory" where
  "hist_restore data h = (hist_restore_loop 0 (hd_list data) h)\<lparr>hist_untilBlock := hd_untilBlock data\<rparr>"

text \<open>\<^verbatim>\<open>update(info, index)\<close>: append to the list at \<open>index\<close>, or start one.\<close>

definition hist_update :: "TxInfo \<Rightarrow> nat \<Rightarrow> ChainHistory \<Rightarrow> ChainHistory" where
  "hist_update info index h =
     h\<lparr>hist_histories :=
          (hist_histories h)(index \<mapsto>
             (case hist_histories h index of
                Some history \<Rightarrow> history @ [Some info]
              | None \<Rightarrow> [Some info])),
       hist_nextIndex := (if hist_nextIndex h \<le> index then index + 1 else hist_nextIndex h)\<rparr>"


section \<open>Chain\<close>

text \<open>
  \<^verbatim>\<open>addresses\<close> maps an address index to its address, \<^verbatim>\<open>indexes\<close> maps back. The
  address source is any object with \<^verbatim>\<open>derive(firstIndex, lastIndex)\<close> returning a
  promise; here it is the function \<open>derive\<close> giving what that promise settles with
  (\<open>Inl\<close>: rejected, \<open>Inr\<close>: fulfilled with the address list).
\<close>

record Chain =
  chain_chunkSize :: int
  chain_addresses :: "nat \<rightharpoonup> string"
  chain_indexes :: "string \<rightharpoonup> nat"
  chain_nextIndex :: nat

definition Chain_new :: "int \<Rightarrow> Chain" where
  "Chain_new chunkSize =
     \<lparr>chain_chunkSize = chunkSize, chain_addresses = Map.empty, chain_indexes = Map.empty,
      chain_nextIndex = 0\<rparr>"

definition chain_indexOf :: "Chain \<Rightarrow> string \<Rightarrow> nat option" where
  "chain_indexOf c address = chain_indexes c address"

definition chain_addressOf :: "Chain \<Rightarrow> nat \<Rightarrow> string option" where
  "chain_addressOf c index = chain_addresses c index"

text \<open>
  The callback of \<^verbatim>\<open>addresses.forEach((a, i) => ...)\<close> at position \<open>i\<close> of the
  array: both maps are written at \<open>i + firstIndex\<close> and \<^verbatim>\<open>nextIndex\<close> is incremented.
\<close>

fun chain_forEach :: "nat \<Rightarrow> nat \<Rightarrow> string list \<Rightarrow> Chain \<Rightarrow> Chain" where
  "chain_forEach firstIndex i [] c = c"
| "chain_forEach firstIndex i (a # rest) c =
     chain_forEach firstIndex (Suc i) rest
       (c\<lparr>chain_addresses := (chain_addresses c)(i + firstIndex \<mapsto> a),
          chain_indexes := (chain_indexes c)(a \<mapsto> i + firstIndex),
          chain_nextIndex := Suc (chain_nextIndex c)\<rparr>)"

text \<open>
  \<^verbatim>\<open>nextChunk()\<close>: asks the source for \<open>[nextIndex, nextIndex + chunkSize - 1]\<close>; a
  rejection passes through, a fulfilment is installed and returned.
\<close>

definition chain_nextChunk ::
  "(int \<Rightarrow> int \<Rightarrow> error + string list) \<Rightarrow> Chain \<Rightarrow> error + (string list \<times> Chain)" where
  "chain_nextChunk derive c =
     (let firstIndex = chain_nextIndex c;
          lastIndex = int (chain_nextIndex c) + chain_chunkSize c - 1
      in case derive (int firstIndex) lastIndex of
           Inl e \<Rightarrow> Inl e
         | Inr addresses \<Rightarrow> Inr (addresses, chain_forEach firstIndex 0 addresses c))"

text \<open>
  \<open>k\<close> calls of \<^verbatim>\<open>nextChunk\<close>, each started after the one before has completed (as
  the discovery chains them); the result collects the addresses returned, in order.
  The first rejection ends the run.
\<close>

fun chain_run ::
  "(int \<Rightarrow> int \<Rightarrow> error + string list) \<Rightarrow> nat \<Rightarrow> Chain \<Rightarrow> error + (string list \<times> Chain)" where
  "chain_run derive 0 c = Inr ([], c)"
| "chain_run derive (Suc k) c =
     (case chain_nextChunk derive c of
        Inl e \<Rightarrow> Inl e
      | Inr (addresses, c') \<Rightarrow>
          (case chain_run derive k c' of
             Inl e \<Rightarrow> Inl e
           | Inr (later, c'') \<Rightarrow> Inr (addresses @ later, c'')))"

text \<open>
  The two maps are inverse to each other and the indices in use are
  \<open>0, \<dots>, nextIndex - 1\<close>.
\<close>

definition Chain_inv :: "Chain \<Rightarrow> bool" where
  "Chain_inv c \<longleftrightarrow>
     (\<forall>i a. chain_addresses c i = Some a \<longleftrightarrow> chain_indexes c a = Some i) \<and>
     dom (chain_addresses c) = {..<chain_nextIndex c}"

text \<open>
  An address source that returns pairwise-distinct addresses of the requested length:
  a fulfilled \<open>derive f l\<close> has \<open>l - f + 1\<close> addresses, no address twice, and shares no
  address with a fulfilled request for a range that starts after \<open>l\<close>.
\<close>

definition source_distinct :: "(int \<Rightarrow> int \<Rightarrow> error + string list) \<Rightarrow> bool" where
  "source_distinct derive \<longleftrightarrow>
     (\<forall>f l as. derive f l = Inr as \<longrightarrow> int (length as) = l - f + 1 \<and> distinct as) \<and>
     (\<forall>f l as f' l' as'. derive f l = Inr as \<longrightarrow> derive f' l' = Inr as' \<longrightarrow> l < f' \<longrightarrow>
        set as \<inter> set as' = {})"

text \<open>
  Every address the chain holds came from a fulfilled request for a range that ends
  below \<^verbatim>\<open>nextIndex\<close>.
\<close>

definition provenance :: "(int \<Rightarrow> int \<Rightarrow> error + string list) \<Rightarrow> Chain \<Rightarrow> bool" where
  "provenance derive c \<longleftrightarrow>
     (\<forall>a \<in> dom (chain_indexes c). \<exists>f l as. derive f l = Inr as \<and> a \<in> set as \<and>
        l < int (chain_nextIndex c))"


section \<open>WorkerChannel\<close>

text \<open>
  A promise is pending until it is settled once; settling it again changes nothing.
\<close>

datatype 'r promise = Pending | Fulfilled 'r | Rejected error

text \<open>
  \<open>wc_promises\<close> holds the promises made by \<^verbatim>\<open>postMessage\<close>, in the order they were
  made; a promise is named by its position there. \<open>wc_pending\<close> is the array
  \<^verbatim>\<open>pending\<close> of \<^verbatim>\<open>{resolve, reject}\<close> pairs, each given by the promise it settles,
  oldest first. \<open>wc_posted\<close> lists the messages handed to the worker.
  \<open>wc_listening\<close> tells whether the two handlers are attached to the worker
  (\<^verbatim>\<open>open\<close> attaches them, \<^verbatim>\<open>close\<close> removes them).
\<close>

record ('m, 'r) WorkerChannel =
  wc_pending :: "nat list"
  wc_promises :: "'r promise list"
  wc_posted :: "'m list"
  wc_listening :: bool

definition wc_open :: "('m, 'r) WorkerChannel \<Rightarrow> ('m, 'r) WorkerChannel" where
  "wc_open ch = ch\<lparr>wc_listening := True\<rparr>"

definition wc_close :: "('m, 'r) WorkerChannel \<Rightarrow> ('m, 'r) WorkerChannel" where
  "wc_close ch = ch\<lparr>wc_listening := False\<rparr>"

text \<open>The constructor: no request pending, then \<^verbatim>\<open>this.open()\<close>.\<close>

definition WorkerChannel_new :: "('m, 'r) WorkerChannel" where
  "WorkerChannel_new =
     wc_open \<lparr>wc_pending = [], wc_promises = [], wc_posted = [], wc_listening = False\<rparr>"

definition settle :: "nat \<Rightarrow> 'r promise \<Rightarrow> 'r promise list \<Rightarrow> 'r promise list" where
  "settle p outcome ps = (if p < length ps \<and> ps ! p = Pending then ps[p := outcome] else ps)"

text \<open>
  \<^verbatim>\<open>postMessage(msg)\<close>: a new promise, its pair pushed on \<^verbatim>\<open>pending\<close>, the message
  handed to the worker. The promise is returned.
\<close>

definition wc_postMessage ::
  "'m \<Rightarrow> ('m, 'r) WorkerChannel \<Rightarrow> nat \<times> ('m, 'r) WorkerChannel" where
  "wc_postMessage msg ch =
     (let p = length (wc_promises ch)
      in (p, ch\<lparr>wc_promises := wc_promises ch @ [Pending],
                wc_pending := wc_pending ch @ [p],
                wc_posted := wc_posted ch @ [msg]\<rparr>))"

text \<open>
  \<^verbatim>\<open>receiveMessage(event)\<close>: \<^verbatim>\<open>pending.shift()\<close> takes the oldest pair, if any, and
  resolves it with \<^verbatim>\<open>event.data\<close>; on an empty array \<^verbatim>\<open>shift\<close> gives \<^verbatim>\<open>undefined\<close>
  and the body of \<^verbatim>\<open>if (dfd)\<close> is skipped.
\<close>

definition wc_receiveMessage :: "'r \<Rightarrow> ('m, 'r) WorkerChannel \<Rightarrow> ('m, 'r) WorkerChannel" where
  "wc_receiveMessage data ch =
     (case wc_pending ch of
        [] \<Rightarrow> ch
      | dfd # rest \<Rightarrow>
          ch\<lparr>wc_pending := rest, wc_promises := settle dfd (Fulfilled data) (wc_promises ch)\<rparr>)"

definition wc_receiveError :: "error \<Rightarrow> ('m, 'r) WorkerChannel \<Rightarrow> ('m, 'r) WorkerChannel" where
  "wc_receiveError err ch =
     (case wc_pending ch of
        [] \<Rightarrow> ch
      | dfd # rest \<Rightarrow>
          ch\<lparr>wc_pending := rest, wc_promises := settle dfd (Rejected err) (wc_promises ch)\<rparr>)"

text \<open>
  A run of \<^verbatim>\<open>postMessage\<close> calls, one per message in order; the promises returned are
  collected in the same order.
\<close>

fun wc_post_all ::
  "'m list \<Rightarrow> ('m, 'r) WorkerChannel \<Rightarrow> nat list \<times> ('m, 'r) WorkerChannel" where
  "wc_post_all [] ch = ([], ch)"
| "wc_post_all (msg # msgs) ch =
     (case wc_postMessage msg ch of
        (p, ch1) \<Rightarrow> (case wc_post_all msgs ch1 of (ps, ch2) \<Rightarrow> (p # ps, ch2)))"


section \<open>PrefatchingSource\<close>

text \<open>
  The wrapped source is reached only through \<^verbatim>\<open>this.source.derive(f, l)\<close>, which
  returns a promise. \<open>ps_issued\<close> lists these calls in order, and the promise of a
  call is named by the call's position in the list. \<open>ps_prefatched\<close> is the field
  \<^verbatim>\<open>prefatched\<close>: \<^verbatim>\<open>null\<close> (\<open>None\<close>) or the range and promise of the look-ahead.
\<close>

record prefatched =
  pf_firstIndex :: int
  pf_lastIndex :: int
  pf_promise :: nat

record PrefatchingSource =
  ps_prefatched :: "prefatched option"
  ps_issued :: "(int \<times> int) list"

definition PrefatchingSource_new :: PrefatchingSource where
  "PrefatchingSource_new = \<lparr>ps_prefatched = None, ps_issued = []\<rparr>"

definition ps_source_derive :: "int \<Rightarrow> int \<Rightarrow> PrefatchingSource \<Rightarrow> nat \<times> PrefatchingSource" where
  "ps_source_derive f l s = (length (ps_issued s), s\<lparr>ps_issued := ps_issued s @ [(f, l)]\<rparr>)"

text \<open>
  \<^verbatim>\<open>derive(firstIndex, lastIndex)\<close> up to its \<^verbatim>\<open>return\<close>: the promise chosen (the
  one in the slot when the slot holds this very range, a new call otherwise), with
  the slot set to \<^verbatim>\<open>null\<close>. The callback is attached to the promise chosen.
\<close>

definition ps_derive :: "int \<Rightarrow> int \<Rightarrow> PrefatchingSource \<Rightarrow> nat \<times> PrefatchingSource" where
  "ps_derive firstIndex lastIndex s =
     (case (case ps_prefatched s of
              Some pf \<Rightarrow>
                if pf_firstIndex pf = firstIndex \<and> pf_lastIndex pf = lastIndex
                then (pf_promise pf, s)
                else ps_source_derive firstIndex lastIndex s
            | None \<Rightarrow> ps_source_derive firstIndex lastIndex s) of
        (promise, s1) \<Rightarrow> (promise, s1\<lparr>ps_prefatched := None\<rparr>))"

text \<open>
  The callback of \<^verbatim>\<open>promise.then\<close>, run with the addresses the promise was fulfilled
  with: the next range of the same size is requested from the wrapped source and put
  in the slot, then the addresses are returned.
\<close>

definition ps_derive_then ::
  "int \<Rightarrow> int \<Rightarrow> string list \<Rightarrow> PrefatchingSource \<Rightarrow> string list \<times> PrefatchingSource" where
  "ps_derive_then firstIndex lastIndex result s =
     (let nf = lastIndex + 1;
          nl = lastIndex + 1 + (lastIndex - firstIndex)
      in case ps_source_derive nf nl s of
           (next, s1) \<Rightarrow>
             (result,
              s1\<lparr>ps_prefatched := Some \<lparr>pf_firstIndex = nf, pf_lastIndex = nl, pf_promise = next\<rparr>\<rparr>))"

text \<open>
  What the promise returned by \<^verbatim>\<open>derive\<close> settles with once the promise chosen has
  settled with \<open>outcome\<close>: a rejection skips the callback and passes through.
\<close>

definition ps_derive_settled ::
  "int \<Rightarrow> int \<Rightarrow> error + string list \<Rightarrow> PrefatchingSource \<Rightarrow>
   (error + string list) \<times> PrefatchingSource" where
  "ps_derive_settled firstIndex lastIndex outcome s =
     (case outcome of
        Inl e \<Rightarrow> (Inl e, s)
      | Inr result \<Rightarrow>
          (case ps_derive_then firstIndex lastIndex result s of (r, s1) \<Rightarrow> (Inr r, s1)))"

section \<open>CachingSource\<close>

text \<open>
  The key is the template string \<^verbatim>\<open>`${firstIndex}-${lastIndex}`\<close>: the two numbers in
  decimal, a minus sign between them.
\<close>

fun show_nat :: "nat \<Rightarrow> string" where
  "show_nat n =
     (if n < 10 then [''0123456789'' ! n]
      else show_nat (n div 10) @ [''0123456789'' ! (n mod 10)])"

declare show_nat.simps [simp del]

definition show_int :: "int \<Rightarrow> string" where
  "show_int i = (if i < 0 then ''-'' @ show_nat (nat (- i)) else show_nat (nat i))"

definition cache_key :: "int \<Rightarrow> int \<Rightarrow> string" where
  "cache_key firstIndex lastIndex = show_int firstIndex @ ''-'' @ show_int lastIndex"

text \<open>
  \<open>cs_cache\<close> is the object \<^verbatim>\<open>cache\<close>; \<open>cs_issued\<close> lists the calls of
  \<^verbatim>\<open>this.source.derive\<close>, the promise of a call named by its position.
\<close>

record CachingSource =
  cs_cache :: "string \<rightharpoonup> string list"
  cs_issued :: "(int \<times> int) list"

definition CachingSource_new :: CachingSource where
  "CachingSource_new = \<lparr>cs_cache = Map.empty, cs_issued = []\<rparr>"

definition cs_store :: "CachingSource \<Rightarrow> (string \<rightharpoonup> string list)" where
  "cs_store s = cs_cache s"

definition cs_restore :: "(string \<rightharpoonup> string list) \<Rightarrow> CachingSource \<Rightarrow> CachingSource" where
  "cs_restore data s = s\<lparr>cs_cache := data\<rparr>"

text \<open>
  \<^verbatim>\<open>derive\<close> up to its \<^verbatim>\<open>return\<close>: on a hit a promise already resolved with the
  cached list, on a miss the promise of a call to the wrapped source, with the callback
  attached.
\<close>

datatype lookup = Hit "string list" | Miss nat

definition cs_derive :: "int \<Rightarrow> int \<Rightarrow> CachingSource \<Rightarrow> lookup \<times> CachingSource" where
  "cs_derive firstIndex lastIndex s =
     (let key = cache_key firstIndex lastIndex
      in case cs_cache s key of
           Some cached \<Rightarrow> (Hit cached, s)
         | None \<Rightarrow> (Miss (length (cs_issued s)),
                     s\<lparr>cs_issued := cs_issued s @ [(firstIndex, lastIndex)]\<rparr>))"

text \<open>The callback \<^verbatim>\<open>(result) => this.cache[key] = result\<close>.\<close>

definition cs_derive_then :: "string \<Rightarrow> string list \<Rightarrow> CachingSource \<Rightarrow> string list \<times> CachingSource" where
  "cs_derive_then key result s = (result, s\<lparr>cs_cache := (cs_cache s)(key \<mapsto> result)\<rparr>)"

text \<open>
  A whole call: what the promise returned settles with, where \<open>outcome\<close> is what the
  wrapped source's promise settles with (looked at on a miss only). A rejection skips
  the callback and passes through.
\<close>

definition cs_derive_settled ::
  "int \<Rightarrow> int \<Rightarrow> error + string list \<Rightarrow> CachingSource \<Rightarrow>
   (error + string list) \<times> CachingSource" where
  "cs_derive_settled firstIndex lastIndex outcome s =
     (case cs_derive firstIndex lastIndex s of
        (Hit cached, s1) \<Rightarrow> (Inr cached, s1)
      | (Miss p, s1) \<Rightarrow>
          (case outcome of
             Inl e \<Rightarrow> (Inl e, s1)
           | Inr result \<Rightarrow>
               (case cs_derive_then (cache_key firstIndex lastIndex) result s1 of
                  (r, s2) \<Rightarrow> (Inr r, s2))))"


section \<open>Blockchain\<close>

text \<open>
  \<^verbatim>\<open>Blockchain\<close> is imported from \<^verbatim>\<open>./bitcore\<close>. The discovery calls
  \<^verbatim>\<open>lookupBestBlockHash\<close>, \<^verbatim>\<open>lookupBlockIndex\<close>, \<^verbatim>\<open>lookupTxs\<close>, \<^verbatim>\<open>subscribe\<close> and
  listens to its \<^verbatim>\<open>transaction\<close> events. The record gives, for each call, what the
  promise returned settles with; of a block index only the \<^verbatim>\<open>height\<close> is read.
\<close>

record lookup_result =
  lr_info :: TxInfo
  lr_addresses :: "string list"

record Blockchain =
  bc_lookupBestBlockHash :: "error + string"
  bc_lookupBlockIndex :: "blockval \<Rightarrow> error + int"
  bc_lookupTxs :: "string list \<Rightarrow> blockval option \<Rightarrow> blockval option \<Rightarrow> error + lookup_result list"

record block_range =
  br_sinceHeight :: blockval
  br_untilHeight :: blockval
  br_untilBlock :: blockval

text \<open>
  \<^verbatim>\<open>getBlockRange\<close>: \<^verbatim>\<open>Promise.all\<close> over the array
  \<^verbatim>\<open>[lastSeenHeight, currentBlock, currentHeight]\<close>, whose callback names the three
  results \<^verbatim>\<open>[sinceHeight, untilHeight, untilBlock]\<close> in this order: \<^verbatim>\<open>untilHeight\<close>
  receives the hash of the best block and \<^verbatim>\<open>untilBlock\<close> its height.
\<close>

definition getBlockRange :: "Blockchain \<Rightarrow> blockval option \<Rightarrow> error + block_range" where
  "getBlockRange blockchain lastSeenBlock =
     (let lastSeenHeight =
            (case lastSeenBlock of
               Some b \<Rightarrow> if truthy (Some b) then bc_lookupBlockIndex blockchain b else Inr 0
             | None \<Rightarrow> Inr 0);
          currentBlock = bc_lookupBestBlockHash blockchain;
          currentHeight =
            (case currentBlock of
               Inl e \<Rightarrow> Inl e
             | Inr hash \<Rightarrow> bc_lookupBlockIndex blockchain (Hash hash))
      in case lastSeenHeight of
           Inl e \<Rightarrow> Inl e
         | Inr h0 \<Rightarrow>
             (case currentBlock of
                Inl e \<Rightarrow> Inl e
              | Inr hash \<Rightarrow>
                  (case currentHeight of
                     Inl e \<Rightarrow> Inl e
                   | Inr h1 \<Rightarrow>
                       Inr \<lparr>br_sinceHeight = Height h0, br_untilHeight = Hash hash,
                            br_untilBlock = Height h1\<rparr>)))"

section \<open>ChainDiscovery\<close>

record ChainDiscovery =
  cd_chain :: Chain
  cd_history :: ChainHistory
  cd_gapLength :: int
  cd_sinceHeight :: "blockval option"
  cd_untilHeight :: "blockval option"

definition ChainDiscovery_new :: "Chain \<Rightarrow> ChainHistory \<Rightarrow> int \<Rightarrow> ChainDiscovery" where
  "ChainDiscovery_new chain history gapLength =
     \<lparr>cd_chain = chain, cd_history = history, cd_gapLength = gapLength,
      cd_sinceHeight = None, cd_untilHeight = None\<rparr>"

text \<open>
  What a step of the discovery does besides changing its state: it emits events, and
  in \<^verbatim>\<open>start\<close> and \<^verbatim>\<open>update\<close> it calls \<^verbatim>\<open>this.next()\<close>. A \<^verbatim>\<open>history\<close> event carries
  the history as it is when emitted.
\<close>

datatype event = Transaction TxInfo | History ChainHistory | Error error

datatype effect = Emit event | Call_next

text \<open>
  The inner loop of \<^verbatim>\<open>update\<close>, over the addresses of one result: an address the chain
  knows sets \<^verbatim>\<open>anyAddress\<close> and is recorded in the history.
\<close>

fun update_addresses ::
  "TxInfo \<Rightarrow> string list \<Rightarrow> bool \<times> ChainDiscovery \<Rightarrow> bool \<times> ChainDiscovery" where
  "update_addresses info [] (anyAddress, d) = (anyAddress, d)"
| "update_addresses info (address # rest) (anyAddress, d) =
     (case chain_indexOf (cd_chain d) address of
        None \<Rightarrow> update_addresses info rest (anyAddress, d)
      | Some index \<Rightarrow>
          update_addresses info rest
            (True, d\<lparr>cd_history := hist_update info index (cd_history d)\<rparr>))"

text \<open>
  The outer loop, over the results: a result with a known address sets
  \<^verbatim>\<open>anyResult\<close>, updates the database of the history and emits \<^verbatim>\<open>transaction\<close>.
\<close>

fun update_results ::
  "lookup_result list \<Rightarrow> bool \<times> ChainDiscovery \<times> effect list \<Rightarrow>
   bool \<times> ChainDiscovery \<times> effect list" where
  "update_results [] (anyResult, d, effects) = (anyResult, d, effects)"
| "update_results (r # rest) (anyResult, d, effects) =
     (case update_addresses (lr_info r) (lr_addresses r) (False, d) of
        (anyAddress, d1) \<Rightarrow>
          if anyAddress
          then update_results rest
                 (True,
                  d1\<lparr>cd_history :=
                       (cd_history d1)\<lparr>hist_database :=
                          db_update (lr_info r) (hist_database (cd_history d1))\<rparr>\<rparr>,
                  effects @ [Emit (Transaction (lr_info r))])
          else update_results rest (anyResult, d1, effects))"

definition cd_gap :: "ChainDiscovery \<Rightarrow> int" where
  "cd_gap d = int (chain_nextIndex (cd_chain d)) - int (hist_nextIndex (cd_history d))"

text \<open>
  \<^verbatim>\<open>update(results)\<close>: once every result is processed, and only when some result
  matched, either \<^verbatim>\<open>this.next()\<close> is called (gap below \<^verbatim>\<open>gapLength\<close>) or
  \<^verbatim>\<open>history\<close> is emitted. Nothing follows either, so the state returned is the state
  at that moment.
\<close>

definition cd_update :: "lookup_result list \<Rightarrow> ChainDiscovery \<Rightarrow> ChainDiscovery \<times> effect list" where
  "cd_update results d =
     (case update_results results (False, d, []) of
        (anyResult, d1, effects) \<Rightarrow>
          if anyResult
          then (if cd_gap d1 < cd_gapLength d1
                then (d1, effects @ [Call_next])
                else (d1, effects @ [Emit (History (cd_history d1))]))
          else (d1, effects))"

text \<open>
  The class declares \<^verbatim>\<open>constructor\<close>, \<^verbatim>\<open>start\<close>, \<^verbatim>\<open>updateBlockInfo\<close>, \<^verbatim>\<open>nextChunk\<close>,
  \<^verbatim>\<open>update\<close> and \<^verbatim>\<open>gap\<close>. It declares no \<^verbatim>\<open>next\<close>, and \<^verbatim>\<open>EventEmitter\<close> has none:
  the call \<^verbatim>\<open>this.next()\<close> throws this exception.
\<close>

definition next_undefined :: error where
  "next_undefined = TypeError ''this.next is not a function''"

text \<open>
  The events emitted when the effects of \<^verbatim>\<open>update\<close> happen inside a promise callback
  followed by \<^verbatim>\<open>.catch((error) => { this.emit('error', error); })\<close>: the exception of
  \<^verbatim>\<open>this.next()\<close> ends \<^verbatim>\<open>update\<close> and is emitted as \<^verbatim>\<open>error\<close>.
\<close>

fun caught_effects :: "effect list \<Rightarrow> event list" where
  "caught_effects [] = []"
| "caught_effects (Emit e # rest) = e # caught_effects rest"
| "caught_effects (Call_next # rest) = [Error next_undefined]"

definition cd_updateBlockInfo :: "Blockchain \<Rightarrow> ChainDiscovery \<Rightarrow> error + ChainDiscovery" where
  "cd_updateBlockInfo blockchain d =
     (case getBlockRange blockchain (hist_untilBlock (cd_history d)) of
        Inl e \<Rightarrow> Inl e
      | Inr br \<Rightarrow>
          Inr (d\<lparr>cd_sinceHeight := Some (br_sinceHeight br),
                 cd_untilHeight := Some (br_untilHeight br),
                 cd_history := (cd_history d)\<lparr>hist_untilBlock := Some (br_untilBlock br)\<rparr>\<rparr>))"

text \<open>
  \<^verbatim>\<open>start()\<close>: the state afterwards, the events emitted, and whether the handler for
  the backend's \<^verbatim>\<open>transaction\<close> events was registered. When the block range resolves,
  the handler is registered and \<^verbatim>\<open>this.next()\<close> is called inside the callback; its
  exception reaches the \<^verbatim>\<open>.catch\<close> of \<^verbatim>\<open>start\<close>.
\<close>

definition cd_start :: "Blockchain \<Rightarrow> ChainDiscovery \<Rightarrow> ChainDiscovery \<times> event list \<times> bool" where
  "cd_start blockchain d =
     (case cd_updateBlockInfo blockchain d of
        Inl e \<Rightarrow> (d, [Error e], False)
      | Inr d1 \<Rightarrow> (d1, caught_effects [Call_next], True))"

text \<open>
  \<^verbatim>\<open>nextChunk()\<close>: the state afterwards, the events emitted and the addresses
  subscribed. \<open>derive\<close> gives what the chain's source settles with.
\<close>

definition cd_nextChunk ::
  "(int \<Rightarrow> int \<Rightarrow> error + string list) \<Rightarrow> Blockchain \<Rightarrow> ChainDiscovery \<Rightarrow>
   ChainDiscovery \<times> event list \<times> string list" where
  "cd_nextChunk derive blockchain d =
     (case chain_nextChunk derive (cd_chain d) of
        Inl e \<Rightarrow> (d, [Error e], [])
      | Inr (addresses, chain') \<Rightarrow>
          (let d1 = d\<lparr>cd_chain := chain'\<rparr>
           in case bc_lookupTxs blockchain addresses (cd_untilHeight d1) (cd_sinceHeight d1) of
                Inl e \<Rightarrow> (d1, [Error e], addresses)
              | Inr results \<Rightarrow>
                  (case cd_update results d1 of
                     (d2, effects) \<Rightarrow> (d2, caught_effects effects, addresses))))"

text \<open>The handler of the backend's \<^verbatim>\<open>transaction\<close> event: \<^verbatim>\<open>this.update([result])\<close>.\<close>

definition cd_on_transaction :: "lookup_result \<Rightarrow> ChainDiscovery \<Rightarrow> ChainDiscovery \<times> effect list" where
  "cd_on_transaction result d = cd_update [result] d"


section \<open>Sample values\<close>

definition info_a :: TxInfo where "info_a = \<lparr>tx_id = ''a'', tx_payload = ''h1''\<rparr>"

definition info_a2 :: TxInfo where "info_a2 = \<lparr>tx_id = ''a'', tx_payload = ''h2''\<rparr>"

definition info_b :: TxInfo where "info_b = \<lparr>tx_id = ''b'', tx_payload = ''h3''\<rparr>"

definition db_ab :: TxDatabase where
  "db_ab = db_update info_b (db_update info_a TxDatabase_new)"

definition data_gaps :: history_data where
  "data_gaps = \<lparr>hd_untilBlock = Some (Hash ''tip''), hd_list = [Some [0], None, Some [0, 1], None]\<rparr>"

definition two_chunks :: "int \<Rightarrow> int \<Rightarrow> error + string list" where
  "two_chunks f l =
     (if f = 0 \<and> l = 1 then Inr [''a0'', ''a1'']
      else if f = 2 \<and> l = 3 then Inr [''a2'', ''a3'']
      else Inl (Failure ''unavailable''))"

definition chain_a01 :: Chain where
  "chain_a01 =
     \<lparr>chain_chunkSize = 2, chain_addresses = [0 \<mapsto> ''a0'', 1 \<mapsto> ''a1''],
      chain_indexes = [''a0'' \<mapsto> 0, ''a1'' \<mapsto> 1], chain_nextIndex = 2\<rparr>"

definition results_a0 :: "lookup_result list" where
  "results_a0 = [\<lparr>lr_info = info_a, lr_addresses = [''zz'', ''a0'']\<rparr>]"

text \<open>
  A backend whose best block is \<open>''tip''\<close> at height 100 and where no address has a
  transaction.
\<close>

definition bc_empty :: Blockchain where
  "bc_empty =
     \<lparr>bc_lookupBestBlockHash = Inr ''tip'',
      bc_lookupBlockIndex = (\<lambda>b. Inr 100),
      bc_lookupTxs = (\<lambda>addresses untilHeight sinceHeight. Inr [])\<rparr>"

text \<open>A discovery on fresh state with the sizes of \<^verbatim>\<open>discoverChain\<close>.\<close>

definition d_fresh :: ChainDiscovery where
  "d_fresh = ChainDiscovery_new (Chain_new 20) (ChainHistory_new TxDatabase_new) 20"

text \<open>A source that derives, for index \<open>i\<close>, the address \<open>''addr''\<close> followed by \<open>i\<close>.\<close>

definition numbered :: "int \<Rightarrow> int \<Rightarrow> error + string list" where
  "numbered f l = Inr (map (\<lambda>i. ''addr'' @ show_int i) [f..l])"

section \<open>TxDatabase: properties\<close>

lemma TxDatabase_inv_new: "TxDatabase_inv TxDatabase_new"
  by (simp add: TxDatabase_inv_def TxDatabase_new_def)

lemma db_update_None:
  "db_indexes db (tx_id info) = None \<Longrightarrow>
   db_indexes (db_update info db) = (db_indexes db)(tx_id info \<mapsto> db_nextIndex db) \<and>
   db_infos (db_update info db) = (db_infos db)(db_nextIndex db \<mapsto> info) \<and>
   db_nextIndex (db_update info db) = Suc (db_nextIndex db)"
  by (simp add: db_update_def)

lemma db_update_Some:
  "db_indexes db (tx_id info) = Some i \<Longrightarrow>
   db_indexes (db_update info db) = db_indexes db \<and>
   db_infos (db_update info db) = (db_infos db)(i \<mapsto> info) \<and>
   db_nextIndex (db_update info db) = db_nextIndex db"
  by (simp add: db_update_def)

lemma TxDatabase_inv_update:
  assumes inv: "TxDatabase_inv db"
  shows "TxDatabase_inv (db_update info db)"
proof -
  let ?n = "db_nextIndex db"
  from inv have bound: "\<And>k i. db_indexes db k = Some i \<Longrightarrow> i < ?n"
    and onto: "\<And>i. i < ?n \<Longrightarrow> \<exists>k. db_indexes db k = Some i"
    and inj: "\<And>k k' i. db_indexes db k = Some i \<Longrightarrow> db_indexes db k' = Some i \<Longrightarrow> k = k'"
    and dom: "dom (db_infos db) = {..<?n}"
    and ids: "\<And>k i. db_indexes db k = Some i \<Longrightarrow> \<exists>x. db_infos db i = Some x \<and> tx_id x = k"
    unfolding TxDatabase_inv_def by blast+
  show ?thesis
  proof (cases "db_indexes db (tx_id info)")
    case None
    note u = db_update_None [OF None]
    have 1: "\<forall>k i. db_indexes (db_update info db) k = Some i \<longrightarrow> i < db_nextIndex (db_update info db)"
      using bound by (auto simp: u less_Suc_eq)
    have 2: "\<forall>i. i < db_nextIndex (db_update info db) \<longrightarrow> (\<exists>k. db_indexes (db_update info db) k = Some i)"
    proof (intro allI impI)
      fix i assume "i < db_nextIndex (db_update info db)"
      then consider "i = ?n" | "i < ?n" by (auto simp: u less_Suc_eq)
      then show "\<exists>k. db_indexes (db_update info db) k = Some i"
      proof cases
        case 1 then show ?thesis by (auto simp: u)
      next
        case 2
        then obtain k where k: "db_indexes db k = Some i" using onto by blast
        with None have "k \<noteq> tx_id info" by auto
        with k show ?thesis by (auto simp: u)
      qed
    qed
    have 3: "\<forall>k k' i. db_indexes (db_update info db) k = Some i \<longrightarrow>
               db_indexes (db_update info db) k' = Some i \<longrightarrow> k = k'"
      using bound inj by (fastforce simp: u split: if_splits)
    have 4: "dom (db_infos (db_update info db)) = {..<db_nextIndex (db_update info db)}"
      using dom by (auto simp: u lessThan_Suc)
    have 5: "\<forall>k i. db_indexes (db_update info db) k = Some i \<longrightarrow>
               (\<exists>x. db_infos (db_update info db) i = Some x \<and> tx_id x = k)"
      using bound ids by (fastforce simp: u split: if_splits)
    from 1 2 3 4 5 show ?thesis unfolding TxDatabase_inv_def by blast
  next
    case (Some j)
    note u = db_update_Some [OF Some]
    have 4: "dom (db_infos (db_update info db)) = {..<db_nextIndex (db_update info db)}"
      using dom bound [OF Some] by (auto simp: u)
    have 5: "\<forall>k i. db_indexes (db_update info db) k = Some i \<longrightarrow>
               (\<exists>x. db_infos (db_update info db) i = Some x \<and> tx_id x = k)"
      using ids inj Some by (auto simp: u)
    from bound onto inj 4 5 show ?thesis unfolding TxDatabase_inv_def u [THEN conjunct1] u [THEN conjunct2, THEN conjunct2]
      by blast
  qed
qed

lemma db_update_indexes_mono:
  "db_indexes db k = Some i \<Longrightarrow> db_indexes (db_update info db) k = Some i"
  by (auto simp: db_update_def split: option.splits)

lemma db_update_infoOfId: "db_infoOfId (db_update info db) (tx_id info) = Some info"
  by (simp add: db_update_def db_infoOfId_def split: option.splits)

lemma db_update_infos_frame:
  assumes inv: "TxDatabase_inv db" and k: "db_indexes db k = Some i" and ne: "k \<noteq> tx_id info"
  shows "db_infos (db_update info db) i = db_infos db i"
proof (cases "db_indexes db (tx_id info)")
  case None
  from inv k have "i < db_nextIndex db" unfolding TxDatabase_inv_def by blast
  then show ?thesis by (simp add: db_update_None [OF None])
next
  case (Some j)
  from inv k Some ne have "j \<noteq> i" unfolding TxDatabase_inv_def by blast
  then show ?thesis by (simp add: db_update_Some [OF Some])
qed

lemma TxDatabase_inv_fold:
  "TxDatabase_inv db \<Longrightarrow> TxDatabase_inv (fold db_update xs db)"
  by (induction xs arbitrary: db) (simp_all add: TxDatabase_inv_update)

lemma fold_update_indexes_mono:
  "db_indexes db k = Some i \<Longrightarrow> db_indexes (fold db_update xs db) k = Some i"
  by (induction xs arbitrary: db) (simp_all add: db_update_indexes_mono)

lemma fold_update_infos_frame:
  "TxDatabase_inv db \<Longrightarrow> db_indexes db k = Some i \<Longrightarrow> k \<notin> tx_id ` set xs \<Longrightarrow>
   db_infos (fold db_update xs db) i = db_infos db i"
proof (induction xs arbitrary: db)
  case Nil
  then show ?case by simp
next
  case (Cons x xs)
  from Cons.prems have ne: "k \<noteq> tx_id x" and rest: "k \<notin> tx_id ` set xs" by auto
  have "db_infos (fold db_update xs (db_update x db)) i = db_infos (db_update x db) i"
    using Cons.IH [OF TxDatabase_inv_update [OF Cons.prems(1)]
        db_update_indexes_mono [OF Cons.prems(2)] rest] .
  also have "\<dots> = db_infos db i"
    using db_update_infos_frame [OF Cons.prems(1,2) ne] .
  finally show ?case by simp
qed

lemma dom_indexes_update:
  "dom (db_indexes (db_update x db)) = insert (tx_id x) (dom (db_indexes db))"
  by (auto simp: db_update_def split: option.splits)

lemma nextIndex_update:
  "db_nextIndex (db_update x db) =
     (if tx_id x \<in> dom (db_indexes db) then db_nextIndex db else Suc (db_nextIndex db))"
  by (auto simp: db_update_def split: option.splits)

lemma card_old_step: "a \<in> D \<Longrightarrow> card (insert a S - D) = card (S - insert a D)"
proof -
  assume "a \<in> D"
  then have "insert a S - D = S - insert a D" by auto
  then show ?thesis by (rule arg_cong)
qed

lemma card_new_step:
  assumes "finite S" and "a \<notin> D"
  shows "card (insert a S - D) = Suc (card (S - insert a D))"
proof -
  from assms(2) have eq: "insert a S - D = insert a (S - insert a D)" by auto
  have notin: "a \<notin> S - insert a D" by simp
  have fin: "finite (S - insert a D)" using assms(1) by simp
  show ?thesis unfolding eq by (rule card_insert_disjoint [OF fin notin])
qed

lemma update_counts:
  assumes "finite S"
  shows "db_nextIndex (db_update x db) + card (S - dom (db_indexes (db_update x db)))
       = db_nextIndex db + card (insert (tx_id x) S - dom (db_indexes db))"
proof (cases "db_indexes db (tx_id x)")
  case None
  then have notin: "tx_id x \<notin> dom (db_indexes db)" by (simp add: domIff)
  have "db_nextIndex (db_update x db) = Suc (db_nextIndex db)"
    using db_update_None [OF None] by simp
  moreover have "dom (db_indexes (db_update x db)) = insert (tx_id x) (dom (db_indexes db))"
    by (rule dom_indexes_update)
  moreover note card_new_step [OF assms notin]
  ultimately show ?thesis by (simp only: add_Suc add_Suc_right)
next
  case (Some i)
  then have isin: "tx_id x \<in> dom (db_indexes db)" by (simp add: domIff)
  have "db_nextIndex (db_update x db) = db_nextIndex db"
    using db_update_Some [OF Some] by simp
  moreover have "dom (db_indexes (db_update x db)) = insert (tx_id x) (dom (db_indexes db))"
    by (rule dom_indexes_update)
  moreover note card_old_step [OF isin, of S]
  ultimately show ?thesis by (simp only:)
qed

lemma fold_update_nextIndex:
  "db_nextIndex (fold db_update xs db) =
     db_nextIndex db + card (tx_id ` set xs - dom (db_indexes db))"
proof (induction xs arbitrary: db)
  case Nil
  then show ?case by simp
next
  case (Cons x xs)
  have "db_nextIndex (fold db_update (x # xs) db) = db_nextIndex (fold db_update xs (db_update x db))"
    by simp
  also have "\<dots> = db_nextIndex (db_update x db)
                  + card (tx_id ` set xs - dom (db_indexes (db_update x db)))"
    by (rule Cons.IH)
  also have "\<dots> = db_nextIndex db + card (insert (tx_id x) (tx_id ` set xs) - dom (db_indexes db))"
    by (rule update_counts) simp
  also have "insert (tx_id x) (tx_id ` set xs) = tx_id ` set (x # xs)" by simp
  finally show ?case .
qed

lemma fold_update_new_index:
  "p < length xs \<Longrightarrow> db_indexes db (tx_id (xs ! p)) = None \<Longrightarrow>
   tx_id (xs ! p) \<notin> tx_id ` set (take p xs) \<Longrightarrow>
   db_indexes (fold db_update xs db) (tx_id (xs ! p)) =
     Some (db_nextIndex db + card (tx_id ` set (take p xs) - dom (db_indexes db)))"
proof (induction xs arbitrary: db p)
  case Nil
  then show ?case by simp
next
  case (Cons x xs)
  show ?case
  proof (cases p)
    case 0
    with Cons.prems have "db_indexes (db_update x db) (tx_id x) = Some (db_nextIndex db)"
      by (simp add: db_update_def)
    then have "db_indexes (fold db_update xs (db_update x db)) (tx_id x) = Some (db_nextIndex db)"
      by (rule fold_update_indexes_mono)
    then show ?thesis using 0 by simp
  next
    case (Suc q)
    let ?k = "tx_id (xs ! q)"
    from Cons.prems Suc have q: "q < length xs" and new: "db_indexes db ?k = None"
      and ne: "?k \<noteq> tx_id x" and first: "?k \<notin> tx_id ` set (take q xs)"
      by auto
    have new1: "db_indexes (db_update x db) ?k = None"
      using new ne by (auto simp: db_update_def split: option.splits)
    have "db_indexes (fold db_update xs (db_update x db)) ?k =
            Some (db_nextIndex (db_update x db)
                  + card (tx_id ` set (take q xs) - dom (db_indexes (db_update x db))))"
      using Cons.IH [OF q new1 first] .
    also have "db_nextIndex (db_update x db)
                  + card (tx_id ` set (take q xs) - dom (db_indexes (db_update x db)))
             = db_nextIndex db
                  + card (insert (tx_id x) (tx_id ` set (take q xs)) - dom (db_indexes db))"
      by (rule update_counts) simp
    also have "insert (tx_id x) (tx_id ` set (take q xs)) = tx_id ` set (take p (x # xs))"
      using Suc by simp
    finally show ?thesis using Suc by simp
  qed
qed

lemma fold_update_last_wins:
  "TxDatabase_inv db \<Longrightarrow> p < length xs \<Longrightarrow>
   tx_id (xs ! p) \<notin> tx_id ` set (drop (Suc p) xs) \<Longrightarrow>
   db_infoOfId (fold db_update xs db) (tx_id (xs ! p)) = Some (xs ! p)"
proof (induction xs arbitrary: db p)
  case Nil
  then show ?case by simp
next
  case (Cons x xs)
  note inv1 = TxDatabase_inv_update [OF Cons.prems(1), of x]
  show ?case
  proof (cases p)
    case 0
    with Cons.prems have later: "tx_id x \<notin> tx_id ` set xs" by simp
    obtain i where i: "db_indexes (db_update x db) (tx_id x) = Some i"
      and x: "db_infos (db_update x db) i = Some x"
      using db_update_infoOfId [of x db]
      by (auto simp: db_infoOfId_def split: option.splits)
    have "db_indexes (fold db_update xs (db_update x db)) (tx_id x) = Some i"
      using fold_update_indexes_mono [OF i] .
    moreover have "db_infos (fold db_update xs (db_update x db)) i = Some x"
      using fold_update_infos_frame [OF inv1 i later] x by simp
    ultimately show ?thesis using 0 by (simp add: db_infoOfId_def)
  next
    case (Suc q)
    with Cons.prems have "q < length xs" "tx_id (xs ! q) \<notin> tx_id ` set (drop (Suc q) xs)"
      by auto
    from Cons.IH [OF inv1 this] show ?thesis using Suc by simp
  qed
qed

text \<open>
  Claim C7. \<^verbatim>\<open>update(info)\<close> on a database of the shape above: when \<^verbatim>\<open>info.id\<close> is not
  indexed, the record goes under the old \<^verbatim>\<open>nextIndex\<close>, which no id and no record used
  before, the counter advances by one and every other entry is untouched; when the id
  is indexed at \<open>i\<close>, only the record at \<open>i\<close> is replaced, the index map and the counter
  stay. Either way \<^verbatim>\<open>infoOf(indexOf(info))\<close> is the record just passed, and the indices
  in use remain \<open>0, \<dots>, nextIndex - 1\<close>.
\<close>

theorem TxDatabase_update_insert_or_overwrite:
  assumes "TxDatabase_inv db"
  shows "(db_indexes db (tx_id info) = None \<longrightarrow>
            db_indexOf (db_update info db) info = Some (db_nextIndex db) \<and>
            db_nextIndex (db_update info db) = Suc (db_nextIndex db) \<and>
            db_infos db (db_nextIndex db) = None \<and>
            (\<forall>k. db_indexes db k \<noteq> Some (db_nextIndex db)) \<and>
            (\<forall>k. k \<noteq> tx_id info \<longrightarrow> db_indexes (db_update info db) k = db_indexes db k) \<and>
            (\<forall>i. i \<noteq> db_nextIndex db \<longrightarrow> db_infos (db_update info db) i = db_infos db i)) \<and>
         (\<forall>i. db_indexes db (tx_id info) = Some i \<longrightarrow>
            db_indexOf (db_update info db) info = Some i \<and>
            db_indexes (db_update info db) = db_indexes db \<and>
            db_nextIndex (db_update info db) = db_nextIndex db \<and>
            db_infos (db_update info db) = (db_infos db)(i \<mapsto> info)) \<and>
         (\<exists>i. db_indexOf (db_update info db) info = Some i \<and>
              db_infoOf (db_update info db) i = Some info) \<and>
         TxDatabase_inv (db_update info db)"
proof -
  let ?n = "db_nextIndex db"
  have fresh_infos: "db_infos db ?n = None"
  proof -
    from assms have "dom (db_infos db) = {..<?n}" unfolding TxDatabase_inv_def by blast
    then have "?n \<notin> dom (db_infos db)" by simp
    then show ?thesis by (simp add: domIff)
  qed
  have fresh_indexes: "\<forall>k. db_indexes db k \<noteq> Some ?n"
  proof
    fix k
    show "db_indexes db k \<noteq> Some ?n"
    proof
      assume "db_indexes db k = Some ?n"
      with assms have "?n < ?n" unfolding TxDatabase_inv_def by blast
      then show False by simp
    qed
  qed
  have ins: "db_indexes db (tx_id info) = None \<longrightarrow>
            db_indexOf (db_update info db) info = Some ?n \<and>
            db_nextIndex (db_update info db) = Suc ?n \<and>
            db_infos db ?n = None \<and>
            (\<forall>k. db_indexes db k \<noteq> Some ?n) \<and>
            (\<forall>k. k \<noteq> tx_id info \<longrightarrow> db_indexes (db_update info db) k = db_indexes db k) \<and>
            (\<forall>i. i \<noteq> ?n \<longrightarrow> db_infos (db_update info db) i = db_infos db i)"
    using fresh_infos fresh_indexes by (simp add: db_update_def db_indexOf_def)
  have ovw: "\<forall>i. db_indexes db (tx_id info) = Some i \<longrightarrow>
            db_indexOf (db_update info db) info = Some i \<and>
            db_indexes (db_update info db) = db_indexes db \<and>
            db_nextIndex (db_update info db) = db_nextIndex db \<and>
            db_infos (db_update info db) = (db_infos db)(i \<mapsto> info)"
    by (simp add: db_update_def db_indexOf_def)
  have rt: "\<exists>i. db_indexOf (db_update info db) info = Some i \<and>
              db_infoOf (db_update info db) i = Some info"
    by (cases "db_indexes db (tx_id info)")
       (simp_all add: db_update_def db_indexOf_def db_infoOf_def)
  from ins ovw rt TxDatabase_inv_update [OF assms] show ?thesis by blast
qed


text \<open>
  The statement at work: inserting \<open>info_a\<close> into the empty database, then updating
  with a second record of the same id.
\<close>

theorem TxDatabase_update_witness:
  "TxDatabase_inv TxDatabase_new \<and>
   db_indexes TxDatabase_new (tx_id info_a) = None \<and>
   db_indexOf (db_update info_a TxDatabase_new) info_a = Some 0 \<and>
   db_nextIndex (db_update info_a TxDatabase_new) = 1 \<and>
   db_indexes (db_update info_a TxDatabase_new) (tx_id info_a2) = Some 0 \<and>
   db_infos (db_update info_a2 (db_update info_a TxDatabase_new)) 0 = Some info_a2 \<and>
   db_nextIndex (db_update info_a2 (db_update info_a TxDatabase_new)) = 1"
proof -
  have n: "db_indexes TxDatabase_new (tx_id info_a) = None"
    by (simp add: TxDatabase_new_def)
  have s: "db_indexes (db_update info_a TxDatabase_new) (tx_id info_a2) = Some 0"
    by (simp add: TxDatabase_new_def db_update_def info_a_def info_a2_def)
  have z: "db_nextIndex TxDatabase_new = 0" by (simp add: TxDatabase_new_def)
  note t1 = TxDatabase_update_insert_or_overwrite
    [where db = TxDatabase_new and info = info_a, OF TxDatabase_inv_new]
  note t2 = TxDatabase_update_insert_or_overwrite
    [where db = "db_update info_a TxDatabase_new" and info = info_a2,
     OF TxDatabase_inv_update [OF TxDatabase_inv_new]]
  from t1 n z have a: "db_indexOf (db_update info_a TxDatabase_new) info_a = Some 0"
    and b: "db_nextIndex (db_update info_a TxDatabase_new) = 1" by simp_all
  from t2 s b have "db_infos (db_update info_a2 (db_update info_a TxDatabase_new)) 0 = Some info_a2"
    and "db_nextIndex (db_update info_a2 (db_update info_a TxDatabase_new)) = 1" by simp_all
  with TxDatabase_inv_new n s a b show ?thesis by simp
qed

text \<open>
  Claim C10. \<^verbatim>\<open>restore(data)\<close> clears nothing: it is \<^verbatim>\<open>update\<close> folded over the items
  in list order. Every id indexed before keeps its index; its record stays as it was
  unless an item carries the same id; an id that is new takes, at its first
  occurrence, the old \<^verbatim>\<open>nextIndex\<close> plus the number of distinct new ids before it, so
  the new entries follow all existing ones in order of appearance; for every id in the
  list the record stored in the end is the last item with that id, at the index the
  id already had when it was present.
\<close>

theorem TxDatabase_restore_replays_update:
  assumes "TxDatabase_inv db"
  shows "db_restore fromJSON data db = fold db_update (map fromJSON data) db \<and>
         (\<forall>k i. db_indexes db k = Some i \<longrightarrow>
            db_indexes (db_restore fromJSON data db) k = Some i) \<and>
         (\<forall>k i. db_indexes db k = Some i \<longrightarrow> k \<notin> tx_id ` fromJSON ` set data \<longrightarrow>
            db_infos (db_restore fromJSON data db) i = db_infos db i) \<and>
         (\<forall>p. p < length data \<longrightarrow> db_indexes db (tx_id (fromJSON (data ! p))) = None \<longrightarrow>
            tx_id (fromJSON (data ! p)) \<notin> tx_id ` fromJSON ` set (take p data) \<longrightarrow>
            db_indexes (db_restore fromJSON data db) (tx_id (fromJSON (data ! p))) =
              Some (db_nextIndex db
                    + card (tx_id ` fromJSON ` set (take p data) - dom (db_indexes db)))) \<and>
         db_nextIndex (db_restore fromJSON data db) =
            db_nextIndex db + card (tx_id ` fromJSON ` set data - dom (db_indexes db)) \<and>
         (\<forall>p. p < length data \<longrightarrow>
            tx_id (fromJSON (data ! p)) \<notin> tx_id ` fromJSON ` set (drop (Suc p) data) \<longrightarrow>
            db_infoOfId (db_restore fromJSON data db) (tx_id (fromJSON (data ! p)))
              = Some (fromJSON (data ! p))) \<and>
         TxDatabase_inv (db_restore fromJSON data db)"
proof -
  let ?xs = "map fromJSON data"
  have r: "db_restore fromJSON data db = fold db_update ?xs db"
    by (simp add: db_restore_def fold_map comp_def)
  have s: "\<And>n. fromJSON ` set (take n data) = set (take n ?xs)"
    "\<And>n. fromJSON ` set (drop n data) = set (drop n ?xs)"
    "fromJSON ` set data = set ?xs"
    by (simp_all add: take_map drop_map)
  have 1: "\<forall>k i. db_indexes db k = Some i \<longrightarrow> db_indexes (fold db_update ?xs db) k = Some i"
    using fold_update_indexes_mono by blast
  have 2: "\<forall>k i. db_indexes db k = Some i \<longrightarrow> k \<notin> tx_id ` set ?xs \<longrightarrow>
            db_infos (fold db_update ?xs db) i = db_infos db i"
    using fold_update_infos_frame [OF assms] by blast
  have 3: "\<forall>p. p < length data \<longrightarrow> db_indexes db (tx_id (fromJSON (data ! p))) = None \<longrightarrow>
            tx_id (fromJSON (data ! p)) \<notin> tx_id ` set (take p ?xs) \<longrightarrow>
            db_indexes (fold db_update ?xs db) (tx_id (fromJSON (data ! p))) =
              Some (db_nextIndex db + card (tx_id ` set (take p ?xs) - dom (db_indexes db)))"
  proof (intro allI impI)
    fix p
    assume p: "p < length data"
      and "db_indexes db (tx_id (fromJSON (data ! p))) = None"
      and "tx_id (fromJSON (data ! p)) \<notin> tx_id ` set (take p ?xs)"
    with fold_update_new_index [of p ?xs db]
    show "db_indexes (fold db_update ?xs db) (tx_id (fromJSON (data ! p))) =
              Some (db_nextIndex db + card (tx_id ` set (take p ?xs) - dom (db_indexes db)))"
      by simp
  qed
  have 4: "db_nextIndex (fold db_update ?xs db) =
            db_nextIndex db + card (tx_id ` set ?xs - dom (db_indexes db))"
    by (rule fold_update_nextIndex)
  have 5: "\<forall>p. p < length data \<longrightarrow>
            tx_id (fromJSON (data ! p)) \<notin> tx_id ` set (drop (Suc p) ?xs) \<longrightarrow>
            db_infoOfId (fold db_update ?xs db) (tx_id (fromJSON (data ! p)))
              = Some (fromJSON (data ! p))"
  proof (intro allI impI)
    fix p
    assume p: "p < length data"
      and "tx_id (fromJSON (data ! p)) \<notin> tx_id ` set (drop (Suc p) ?xs)"
    with fold_update_last_wins [OF assms, of p ?xs]
    show "db_infoOfId (fold db_update ?xs db) (tx_id (fromJSON (data ! p)))
              = Some (fromJSON (data ! p))"
      by simp
  qed
  have 6: "TxDatabase_inv (fold db_update ?xs db)"
    by (rule TxDatabase_inv_fold [OF assms])
  from 1 2 3 4 5 6 show ?thesis unfolding r s by (simp only: simp_thms)
qed

text \<open>
  The statement at work: a database holding \<open>info_a\<close> restored from a list with a new
  id followed by a second record for the id already present.
\<close>

theorem TxDatabase_restore_witness:
  "TxDatabase_inv (db_update info_a TxDatabase_new) \<and>
   db_indexes (db_update info_a TxDatabase_new) ''a'' = Some 0 \<and>
   db_indexes (db_restore id [info_b, info_a2] (db_update info_a TxDatabase_new)) ''a'' = Some 0 \<and>
   db_indexes (db_restore id [info_b, info_a2] (db_update info_a TxDatabase_new)) ''b'' = Some 1 \<and>
   db_nextIndex (db_restore id [info_b, info_a2] (db_update info_a TxDatabase_new)) = 2 \<and>
   db_infoOfId (db_restore id [info_b, info_a2] (db_update info_a TxDatabase_new)) ''a'' = Some info_a2"
proof -
  let ?db = "db_update info_a TxDatabase_new"
  have inv: "TxDatabase_inv ?db" by (rule TxDatabase_inv_update [OF TxDatabase_inv_new])
  note t = TxDatabase_restore_replays_update
    [where db = ?db and fromJSON = id and data = "[info_b, info_a2]", OF inv]
  have a: "db_indexes ?db ''a'' = Some 0"
    by (simp add: TxDatabase_new_def db_update_def info_a_def)
  have "db_indexes (db_restore id [info_b, info_a2] ?db) ''a'' = Some 0"
    using t a by blast
  moreover have "db_indexes (db_restore id [info_b, info_a2] ?db) ''b'' = Some 1"
    using t [THEN conjunct2, THEN conjunct2, THEN conjunct2, THEN conjunct1, rule_format, of 0]
    by (simp add: TxDatabase_new_def db_update_def info_a_def info_b_def)
  moreover have "db_nextIndex (db_restore id [info_b, info_a2] ?db) = 2"
    using t [THEN conjunct2, THEN conjunct2, THEN conjunct2, THEN conjunct2, THEN conjunct1]
    by (simp add: TxDatabase_new_def db_update_def info_a_def info_b_def info_a2_def)
  moreover have "db_infoOfId (db_restore id [info_b, info_a2] ?db) ''a'' = Some info_a2"
    using t [THEN conjunct2, THEN conjunct2, THEN conjunct2, THEN conjunct2, THEN conjunct2,
        THEN conjunct1, rule_format, of 1]
    by (simp add: info_a2_def)
  ultimately show ?thesis using inv a by simp
qed

section \<open>ChainHistory: properties\<close>

lemma restore_loop_database:
  "hist_database (hist_restore_loop n l h) = hist_database h"
  by (induction n l h rule: hist_restore_loop.induct) simp_all

lemma restore_loop_untilBlock:
  "hist_untilBlock (hist_restore_loop n l h) = hist_untilBlock h"
  by (induction n l h rule: hist_restore_loop.induct) simp_all

lemma restore_loop_histories:
  "hist_histories (hist_restore_loop n l h) i =
     (if n \<le> i \<and> i < n + length l then
        (case l ! (i - n) of
           None \<Rightarrow> hist_histories h i
         | Some indexes \<Rightarrow> Some (map (db_infoOf (hist_database h)) indexes))
      else hist_histories h i)"
proof (induction n l h rule: hist_restore_loop.induct)
  case (1 index h)
  then show ?case by auto
next
  case (2 index rest h)
  then show ?case by (auto simp: nth_Cons' Suc_diff_le split: option.splits)
next
  case (3 index indexes rest h)
  then show ?case by (auto simp: nth_Cons' Suc_diff_le restore_loop_database split: option.splits)
qed

lemma restore_loop_nextIndex_none:
  "\<forall>x \<in> set l. x = None \<Longrightarrow> hist_nextIndex (hist_restore_loop n l h) = hist_nextIndex h"
  by (induction n l h rule: hist_restore_loop.induct) simp_all

lemma restore_loop_nextIndex_last:
  "j < length l \<Longrightarrow> l ! j \<noteq> None \<Longrightarrow> \<forall>x \<in> set (drop (Suc j) l). x = None \<Longrightarrow>
   hist_nextIndex h \<le> n + j \<Longrightarrow>
   hist_nextIndex (hist_restore_loop n l h) = Suc (n + j)"
proof (induction n l h arbitrary: j rule: hist_restore_loop.induct)
  case (1 index h)
  then show ?case by simp
next
  case (2 index rest h)
  then obtain q where j: "j = Suc q" by (cases j) auto
  with 2 show ?case by simp
next
  case (3 index indexes rest h)
  show ?case
  proof (cases j)
    case 0
    with 3 show ?thesis by (simp add: restore_loop_nextIndex_none)
  next
    case (Suc q)
    with 3 show ?thesis by simp
  qed
qed

text \<open>
  Claim C9. \<^verbatim>\<open>restore(data)\<close> on a freshly constructed history: position \<open>i\<close> has an
  entry exactly when \<^verbatim>\<open>data.list[i]\<close> is not null, and the entry is the stored index
  list mapped through \<^verbatim>\<open>infoOf\<close> of the database; \<^verbatim>\<open>untilBlock\<close> is
  \<^verbatim>\<open>data.untilBlock\<close>; \<^verbatim>\<open>nextIndex\<close> is 0 when every position is null and otherwise one
  more than the last position that is not null. The database is not touched.
\<close>

theorem ChainHistory_restore_fresh:
  "(\<forall>i. hist_histories (hist_restore data (ChainHistory_new db)) i =
         (if i < length (hd_list data)
          then map_option (map (db_infoOf db)) (hd_list data ! i)
          else None)) \<and>
   hist_untilBlock (hist_restore data (ChainHistory_new db)) = hd_untilBlock data \<and>
   hist_database (hist_restore data (ChainHistory_new db)) = db \<and>
   ((\<forall>x \<in> set (hd_list data). x = None) \<longrightarrow>
      hist_nextIndex (hist_restore data (ChainHistory_new db)) = 0) \<and>
   (\<forall>j. j < length (hd_list data) \<longrightarrow> hd_list data ! j \<noteq> None \<longrightarrow>
        (\<forall>x \<in> set (drop (Suc j) (hd_list data)). x = None) \<longrightarrow>
        hist_nextIndex (hist_restore data (ChainHistory_new db)) = Suc j)"
proof -
  let ?h0 = "ChainHistory_new db"
  have h0: "hist_database ?h0 = db" "hist_histories ?h0 = Map.empty" "hist_nextIndex ?h0 = 0"
    by (simp_all add: ChainHistory_new_def)
  have 1: "\<forall>i. hist_histories (hist_restore data ?h0) i =
         (if i < length (hd_list data)
          then map_option (map (db_infoOf db)) (hd_list data ! i)
          else None)"
    by (simp add: hist_restore_def restore_loop_histories h0 split: option.splits)
  have 2: "hist_untilBlock (hist_restore data ?h0) = hd_untilBlock data"
    by (simp add: hist_restore_def)
  have 3: "hist_database (hist_restore data ?h0) = db"
    by (simp add: hist_restore_def restore_loop_database h0)
  have 4: "(\<forall>x \<in> set (hd_list data). x = None) \<longrightarrow> hist_nextIndex (hist_restore data ?h0) = 0"
    by (simp add: hist_restore_def restore_loop_nextIndex_none h0)
  have 5: "\<forall>j. j < length (hd_list data) \<longrightarrow> hd_list data ! j \<noteq> None \<longrightarrow>
        (\<forall>x \<in> set (drop (Suc j) (hd_list data)). x = None) \<longrightarrow>
        hist_nextIndex (hist_restore data ?h0) = Suc j"
  proof (intro allI impI)
    fix j
    assume "j < length (hd_list data)" "hd_list data ! j \<noteq> None"
      "\<forall>x \<in> set (drop (Suc j) (hd_list data)). x = None"
    from restore_loop_nextIndex_last [OF this, of ?h0 0]
    show "hist_nextIndex (hist_restore data ?h0) = Suc j"
      by (simp add: hist_restore_def h0)
  qed
  from 1 2 3 4 5 show ?thesis by blast
qed

text \<open>
  The statement at work on a list with a gap at position 1 and a trailing null, over a
  database holding \<open>info_a\<close> and \<open>info_b\<close>.
\<close>

theorem ChainHistory_restore_witness:
  "hist_nextIndex (hist_restore data_gaps (ChainHistory_new db_ab)) = 3 \<and>
   hist_histories (hist_restore data_gaps (ChainHistory_new db_ab)) 0 = Some [Some info_a] \<and>
   hist_histories (hist_restore data_gaps (ChainHistory_new db_ab)) 1 = None \<and>
   hist_histories (hist_restore data_gaps (ChainHistory_new db_ab)) 2 = Some [Some info_a, Some info_b] \<and>
   hist_histories (hist_restore data_gaps (ChainHistory_new db_ab)) 3 = None \<and>
   hist_untilBlock (hist_restore data_gaps (ChainHistory_new db_ab)) = Some (Hash ''tip'')"
proof -
  note t = ChainHistory_restore_fresh [where data = data_gaps and db = db_ab]
  have db: "db_infoOf db_ab 0 = Some info_a" "db_infoOf db_ab (Suc 0) = Some info_b"
    by (simp_all add: db_ab_def db_update_def TxDatabase_new_def db_infoOf_def info_a_def info_b_def)
  have n: "hist_nextIndex (hist_restore data_gaps (ChainHistory_new db_ab)) = 3"
    using t [THEN conjunct2, THEN conjunct2, THEN conjunct2, THEN conjunct2, rule_format, of 2]
    by (simp add: data_gaps_def)
  have h: "\<And>i. hist_histories (hist_restore data_gaps (ChainHistory_new db_ab)) i =
         (if i < length (hd_list data_gaps)
          then map_option (map (db_infoOf db_ab)) (hd_list data_gaps ! i)
          else None)"
    using t by blast
  have u: "hist_untilBlock (hist_restore data_gaps (ChainHistory_new db_ab)) = Some (Hash ''tip'')"
    using t by (simp add: data_gaps_def)
  have h0: "hist_histories (hist_restore data_gaps (ChainHistory_new db_ab)) 0 = Some [Some info_a]"
    unfolding h [of 0] by (simp add: data_gaps_def db)
  have h1: "hist_histories (hist_restore data_gaps (ChainHistory_new db_ab)) 1 = None"
    unfolding h [of 1] by (simp add: data_gaps_def)
  have h2: "hist_histories (hist_restore data_gaps (ChainHistory_new db_ab)) 2
              = Some [Some info_a, Some info_b]"
    unfolding h [of 2] by (simp add: data_gaps_def db)
  have h3: "hist_histories (hist_restore data_gaps (ChainHistory_new db_ab)) 3 = None"
    unfolding h [of 3] by (simp add: data_gaps_def)
  from n h0 h1 h2 h3 u show ?thesis by blast
qed


section \<open>Chain: properties\<close>

lemma Chain_inv_new: "Chain_inv (Chain_new chunkSize)"
  by (simp add: Chain_inv_def Chain_new_def)

lemma Chain_inv_insert:
  assumes inv: "Chain_inv c" and a: "a \<notin> dom (chain_indexes c)"
  shows "Chain_inv (c\<lparr>chain_addresses := (chain_addresses c)(chain_nextIndex c \<mapsto> a),
                     chain_indexes := (chain_indexes c)(a \<mapsto> chain_nextIndex c),
                     chain_nextIndex := Suc (chain_nextIndex c)\<rparr>)"
proof -
  let ?n = "chain_nextIndex c"
  from inv have iff: "\<And>i b. chain_addresses c i = Some b \<longleftrightarrow> chain_indexes c b = Some i"
    and dom: "dom (chain_addresses c) = {..<?n}"
    unfolding Chain_inv_def by blast+
  have n_free: "chain_addresses c ?n = None"
  proof -
    have "?n \<notin> dom (chain_addresses c)" unfolding dom by simp
    then show ?thesis by (simp add: domIff)
  qed
  have a_free: "\<And>i. chain_addresses c i \<noteq> Some a"
  proof
    fix i assume "chain_addresses c i = Some a"
    then have "chain_indexes c a = Some i" using iff by blast
    with a show False by (simp add: domIff)
  qed
  have n_unused: "\<And>b. chain_indexes c b \<noteq> Some ?n"
  proof
    fix b assume "chain_indexes c b = Some ?n"
    then have "chain_addresses c ?n = Some b" using iff by blast
    with n_free show False by simp
  qed
  have 1: "\<forall>i b. ((chain_addresses c)(?n \<mapsto> a)) i = Some b \<longleftrightarrow>
                  ((chain_indexes c)(a \<mapsto> ?n)) b = Some i"
  proof (intro allI)
    fix i b
    show "((chain_addresses c)(?n \<mapsto> a)) i = Some b \<longleftrightarrow> ((chain_indexes c)(a \<mapsto> ?n)) b = Some i"
    proof (cases "i = ?n")
      case True
      then show ?thesis using n_unused [of b] by auto
    next
      case False
      then show ?thesis using a_free [of i] iff [of i b] by auto
    qed
  qed
  have 2: "dom ((chain_addresses c)(?n \<mapsto> a)) = {..<Suc ?n}"
    using dom by (auto simp: lessThan_Suc)
  from 1 2 show ?thesis unfolding Chain_inv_def by simp
qed

lemma chain_forEach_props:
  "Chain_inv c \<Longrightarrow> chain_nextIndex c = i + firstIndex \<Longrightarrow> distinct as \<Longrightarrow>
   set as \<inter> dom (chain_indexes c) = {} \<Longrightarrow>
   Chain_inv (chain_forEach firstIndex i as c) \<and>
   chain_nextIndex (chain_forEach firstIndex i as c) = chain_nextIndex c + length as \<and>
   dom (chain_indexes (chain_forEach firstIndex i as c)) = dom (chain_indexes c) \<union> set as \<and>
   chain_chunkSize (chain_forEach firstIndex i as c) = chain_chunkSize c"
proof (induction as arbitrary: i c)
  case Nil
  then show ?case by simp
next
  case (Cons a as)
  let ?c1 = "c\<lparr>chain_addresses := (chain_addresses c)(i + firstIndex \<mapsto> a),
                chain_indexes := (chain_indexes c)(a \<mapsto> i + firstIndex),
                chain_nextIndex := Suc (chain_nextIndex c)\<rparr>"
  from Cons.prems have a: "a \<notin> dom (chain_indexes c)" by auto
  have inv1: "Chain_inv ?c1"
    using Chain_inv_insert [OF Cons.prems(1) a] Cons.prems(2) by simp
  have n1: "chain_nextIndex ?c1 = Suc i + firstIndex" using Cons.prems(2) by simp
  have d1: "distinct as" using Cons.prems(3) by simp
  have disj1: "set as \<inter> dom (chain_indexes ?c1) = {}"
    using Cons.prems(3,4) by auto
  from Cons.IH [OF inv1 n1 d1 disj1] show ?case by auto
qed

lemma chain_nextChunk_props:
  assumes src: "source_distinct derive"
    and inv: "Chain_inv c" and prov: "provenance derive c"
    and step: "chain_nextChunk derive c = Inr (as, c')"
  shows "Chain_inv c' \<and> provenance derive c' \<and>
         int (chain_nextIndex c') = int (chain_nextIndex c) + chain_chunkSize c \<and>
         int (length as) = chain_chunkSize c \<and>
         dom (chain_indexes c') = dom (chain_indexes c) \<union> set as \<and>
         chain_chunkSize c' = chain_chunkSize c"
proof -
  let ?f = "int (chain_nextIndex c)"
  let ?l = "int (chain_nextIndex c) + chain_chunkSize c - 1"
  from step have d: "derive ?f ?l = Inr as"
    and c': "c' = chain_forEach (chain_nextIndex c) 0 as c"
    by (auto simp: chain_nextChunk_def Let_def split: sum.splits)
  from src d have len: "int (length as) = chain_chunkSize c" and dist: "distinct as"
    unfolding source_distinct_def by fastforce+
  have disj: "set as \<inter> dom (chain_indexes c) = {}"
  proof (rule ccontr)
    assume "set as \<inter> dom (chain_indexes c) \<noteq> {}"
    then obtain a where a: "a \<in> set as" "a \<in> dom (chain_indexes c)" by blast
    with prov obtain f0 l0 as0 where p: "derive f0 l0 = Inr as0" "a \<in> set as0" "l0 < ?f"
      unfolding provenance_def by blast
    from src p(1) d p(3) have "set as0 \<inter> set as = {}"
      unfolding source_distinct_def by blast
    with a(1) p(2) show False by blast
  qed
  note props = chain_forEach_props [OF inv _ dist disj, of 0 "chain_nextIndex c", simplified, folded c']
  have n': "int (chain_nextIndex c') = ?f + chain_chunkSize c"
    using props len by simp
  have "provenance derive c'"
    unfolding provenance_def
  proof
    fix a assume "a \<in> dom (chain_indexes c')"
    with props have "a \<in> dom (chain_indexes c) \<or> a \<in> set as" by auto
    then show "\<exists>f l as. derive f l = Inr as \<and> a \<in> set as \<and> l < int (chain_nextIndex c')"
    proof
      assume "a \<in> dom (chain_indexes c)"
      with prov obtain f0 l0 as0 where "derive f0 l0 = Inr as0" "a \<in> set as0" "l0 < ?f"
        unfolding provenance_def by blast
      moreover have "?f \<le> int (chain_nextIndex c')" using props by simp
      ultimately show ?thesis by force
    next
      assume "a \<in> set as"
      moreover have "?l < int (chain_nextIndex c')" using n' by simp
      ultimately show ?thesis using d by blast
    qed
  qed
  with props n' len show ?thesis by simp
qed

lemma chain_run_props:
  "source_distinct derive \<Longrightarrow> Chain_inv c \<Longrightarrow> provenance derive c \<Longrightarrow>
   chain_run derive k c = Inr (ins, c') \<Longrightarrow>
   Chain_inv c' \<and> provenance derive c' \<and>
   int (chain_nextIndex c') = int (chain_nextIndex c) + int k * chain_chunkSize c \<and>
   dom (chain_indexes c') = dom (chain_indexes c) \<union> set ins \<and>
   chain_chunkSize c' = chain_chunkSize c"
proof (induction k arbitrary: c ins)
  case 0
  then show ?case by simp
next
  case (Suc k)
  from Suc.prems(4) obtain as c1 later where
    step: "chain_nextChunk derive c = Inr (as, c1)"
    and rest: "chain_run derive k c1 = Inr (later, c')"
    and ins: "ins = as @ later"
    by (auto split: sum.splits prod.splits)
  note p1 = chain_nextChunk_props [OF Suc.prems(1,2,3) step]
  from p1 have inv1: "Chain_inv c1" and prov1: "provenance derive c1" by simp_all
  note p2 = Suc.IH [OF Suc.prems(1) inv1 prov1 rest]
  have "int (chain_nextIndex c') = int (chain_nextIndex c) + int (Suc k) * chain_chunkSize c"
    using p1 p2 by (simp add: algebra_simps)
  moreover have "dom (chain_indexes c') = dom (chain_indexes c) \<union> set ins"
    using p1 p2 ins by auto
  ultimately show ?case using p1 p2 by simp
qed

lemma Chain_inv_card_indexes:
  assumes "Chain_inv c"
  shows "card (dom (chain_indexes c)) = chain_nextIndex c"
proof -
  from assms have iff: "\<And>i b. chain_addresses c i = Some b \<longleftrightarrow> chain_indexes c b = Some i"
    and dom: "dom (chain_addresses c) = {..<chain_nextIndex c}"
    unfolding Chain_inv_def by blast+
  let ?g = "\<lambda>i. the (chain_addresses c i)"
  have img: "?g ` {..<chain_nextIndex c} = dom (chain_indexes c)"
  proof (intro set_eqI iffI)
    fix b assume "b \<in> ?g ` {..<chain_nextIndex c}"
    then obtain i where "i \<in> dom (chain_addresses c)" "b = ?g i" using dom by auto
    then have "chain_addresses c i = Some b" by auto
    then show "b \<in> dom (chain_indexes c)" using iff by auto
  next
    fix b assume "b \<in> dom (chain_indexes c)"
    then obtain i where "chain_indexes c b = Some i" by auto
    then have i: "chain_addresses c i = Some b" using iff by blast
    then have "i \<in> {..<chain_nextIndex c}" using dom by auto
    with i show "b \<in> ?g ` {..<chain_nextIndex c}" by force
  qed
  have inj: "inj_on ?g {..<chain_nextIndex c}"
  proof (rule inj_onI)
    fix i j assume i: "i \<in> {..<chain_nextIndex c}" and j: "j \<in> {..<chain_nextIndex c}"
      and eq: "?g i = ?g j"
    from i j dom obtain a b where ab: "chain_addresses c i = Some a" "chain_addresses c j = Some b"
      by blast
    with eq have "a = b" by simp
    with ab iff have "chain_indexes c a = Some i" "chain_indexes c a = Some j" by blast+
    then show "i = j" by simp
  qed
  from card_image [OF inj] img show ?thesis by simp
qed

lemma source_distinct_two_chunks: "source_distinct two_chunks"
  unfolding source_distinct_def two_chunks_def
  by (auto split: if_splits)

text \<open>
  Claim C5. A chain built over a source that returns pairwise-distinct addresses of the
  requested length, after \<open>k\<close> successful \<^verbatim>\<open>nextChunk\<close> calls: \<^verbatim>\<open>nextIndex\<close> is
  \<open>k * chunkSize\<close>, each of the two maps has exactly that many entries,
  \<^verbatim>\<open>addressOf(indexOf(a))\<close> is \<open>a\<close> for every address inserted, and
  \<^verbatim>\<open>indexOf(addressOf(i))\<close> is \<open>i\<close> for every \<open>i\<close> below \<^verbatim>\<open>nextIndex\<close>.
\<close>

theorem Chain_after_k_chunks:
  assumes "source_distinct derive"
    and "chain_run derive k (Chain_new chunkSize) = Inr (inserted, c)"
  shows "int (chain_nextIndex c) = int k * chunkSize \<and>
         card (dom (chain_addresses c)) = chain_nextIndex c \<and>
         card (dom (chain_indexes c)) = chain_nextIndex c \<and>
         (\<forall>a \<in> set inserted. \<exists>i. chain_indexOf c a = Some i \<and> chain_addressOf c i = Some a) \<and>
         (\<forall>i. i < chain_nextIndex c \<longrightarrow>
            (\<exists>a. chain_addressOf c i = Some a \<and> chain_indexOf c a = Some i))"
proof -
  have prov0: "provenance derive (Chain_new chunkSize)"
    by (simp add: provenance_def Chain_new_def)
  note p = chain_run_props [OF assms(1) Chain_inv_new prov0 assms(2)]
  from p have inv: "Chain_inv c" by simp
  then have iff: "\<And>i b. chain_addresses c i = Some b \<longleftrightarrow> chain_indexes c b = Some i"
    and dom: "dom (chain_addresses c) = {..<chain_nextIndex c}"
    unfolding Chain_inv_def by blast+
  from p have ins: "dom (chain_indexes c) = set inserted" by (simp add: Chain_new_def)
  have 1: "int (chain_nextIndex c) = int k * chunkSize"
    using p by (simp add: Chain_new_def)
  have 2: "card (dom (chain_addresses c)) = chain_nextIndex c"
    unfolding dom by simp
  have 3: "card (dom (chain_indexes c)) = chain_nextIndex c"
    by (rule Chain_inv_card_indexes [OF inv])
  have 4: "\<forall>a \<in> set inserted. \<exists>i. chain_indexOf c a = Some i \<and> chain_addressOf c i = Some a"
  proof
    fix a assume "a \<in> set inserted"
    with ins obtain i where "chain_indexes c a = Some i" by auto
    with iff show "\<exists>i. chain_indexOf c a = Some i \<and> chain_addressOf c i = Some a"
      by (auto simp: chain_indexOf_def chain_addressOf_def)
  qed
  have 5: "\<forall>i. i < chain_nextIndex c \<longrightarrow>
            (\<exists>a. chain_addressOf c i = Some a \<and> chain_indexOf c a = Some i)"
  proof (intro allI impI)
    fix i assume "i < chain_nextIndex c"
    with dom obtain a where "chain_addresses c i = Some a" by auto
    with iff show "\<exists>a. chain_addressOf c i = Some a \<and> chain_indexOf c a = Some i"
      by (auto simp: chain_indexOf_def chain_addressOf_def)
  qed
  from 1 2 3 4 5 show ?thesis by blast
qed

lemma two_chunks_run:
  "chain_run two_chunks 2 (Chain_new 2) =
     Inr ([''a0'', ''a1'', ''a2'', ''a3''],
          \<lparr>chain_chunkSize = 2,
           chain_addresses = [0 \<mapsto> ''a0'', 1 \<mapsto> ''a1'', 2 \<mapsto> ''a2'', 3 \<mapsto> ''a3''],
           chain_indexes = [''a0'' \<mapsto> 0, ''a1'' \<mapsto> 1, ''a2'' \<mapsto> 2, ''a3'' \<mapsto> 3],
           chain_nextIndex = 4\<rparr>)"
  by (simp add: eval_nat_numeral chain_nextChunk_def two_chunks_def Chain_new_def)

text \<open>The statement at work: two chunks of size 2 from the source \<open>two_chunks\<close>.\<close>

theorem Chain_after_k_chunks_witness:
  "source_distinct two_chunks \<and>
   (\<exists>inserted c. chain_run two_chunks 2 (Chain_new 2) = Inr (inserted, c) \<and>
      inserted = [''a0'', ''a1'', ''a2'', ''a3''] \<and>
      chain_nextIndex c = 4 \<and>
      card (dom (chain_indexes c)) = 4 \<and>
      chain_indexOf c ''a2'' = Some 2 \<and> chain_addressOf c 2 = Some ''a2'')"
proof -
  note t = Chain_after_k_chunks [OF source_distinct_two_chunks two_chunks_run]
  from t have "card (dom [''a0'' \<mapsto> 0::nat, ''a1'' \<mapsto> 1, ''a2'' \<mapsto> 2, ''a3'' \<mapsto> 3]) = 4"
    by simp
  then show ?thesis
    using source_distinct_two_chunks
    by (simp add: two_chunks_run chain_indexOf_def chain_addressOf_def)
qed


section \<open>WorkerChannel: properties\<close>

lemma upt_from_Suc: "[m..<m + Suc n] = m # [Suc m..<Suc m + n]"
  by (subst upt_rec) simp

lemma wc_post_all_props:
  "wc_post_all msgs ch = (futures, ch1) \<Longrightarrow>
   futures = [length (wc_promises ch)..<length (wc_promises ch) + length msgs] \<and>
   wc_pending ch1 = wc_pending ch @ futures \<and>
   wc_promises ch1 = wc_promises ch @ replicate (length msgs) Pending \<and>
   wc_posted ch1 = wc_posted ch @ msgs \<and>
   wc_listening ch1 = wc_listening ch"
proof (induction msgs arbitrary: ch futures)
  case Nil
  then show ?case by simp
next
  case (Cons msg msgs)
  let ?ch' = "snd (wc_postMessage msg ch)"
  let ?n = "length (wc_promises ch)"
  from Cons.prems obtain ps where
    rest: "wc_post_all msgs ?ch' = (ps, ch1)" and f: "futures = ?n # ps"
    by (auto simp: wc_postMessage_def Let_def split: prod.splits)
  have ch': "wc_promises ?ch' = wc_promises ch @ [Pending]"
    "wc_pending ?ch' = wc_pending ch @ [?n]"
    "wc_posted ?ch' = wc_posted ch @ [msg]"
    "wc_listening ?ch' = wc_listening ch"
    by (simp_all add: wc_postMessage_def Let_def)
  note ih = Cons.IH [OF rest]
  have "futures = ?n # [Suc ?n..<Suc ?n + length msgs]"
    using ih f by (simp only: ch' length_append list.size) simp
  then have "futures = [?n..<?n + length (msg # msgs)]"
    using upt_from_Suc [of ?n "length msgs"] by (simp only: length_Cons)
  moreover have "wc_pending ch1 = wc_pending ch @ futures"
    using ih f by (simp add: ch')
  moreover have "wc_promises ch1 = wc_promises ch @ replicate (length (msg # msgs)) Pending"
    using ih by (simp add: ch' replicate_app_Cons_same)
  moreover have "wc_posted ch1 = wc_posted ch @ msg # msgs"
    using ih by (simp add: ch')
  moreover have "wc_listening ch1 = wc_listening ch"
    using ih by (simp add: ch')
  ultimately show ?case by blast
qed

lemma wc_receive_all:
  "wc_pending ch = [m..<m + length rs] \<Longrightarrow> m + length rs \<le> length (wc_promises ch) \<Longrightarrow>
   (\<forall>j. m \<le> j \<and> j < m + length rs \<longrightarrow> wc_promises ch ! j = Pending) \<Longrightarrow>
   length (wc_promises (fold wc_receiveMessage rs ch)) = length (wc_promises ch) \<and>
   (\<forall>j. j < m \<longrightarrow> wc_promises (fold wc_receiveMessage rs ch) ! j = wc_promises ch ! j) \<and>
   (\<forall>k. k < length rs \<longrightarrow> wc_promises (fold wc_receiveMessage rs ch) ! (m + k) = Fulfilled (rs ! k)) \<and>
   wc_pending (fold wc_receiveMessage rs ch) = []"
proof (induction rs arbitrary: ch m)
  case Nil
  then show ?case by simp
next
  case (Cons r rs)
  let ?ch' = "wc_receiveMessage r ch"
  from Cons.prems(1) have pend: "wc_pending ch = m # [Suc m..<Suc m + length rs]"
    by (simp only: upt_from_Suc length_Cons)
  from Cons.prems(2,3) have m: "m < length (wc_promises ch)" "wc_promises ch ! m = Pending"
    by auto
  have ch': "wc_pending ?ch' = [Suc m..<Suc m + length rs]"
    "wc_promises ?ch' = (wc_promises ch)[m := Fulfilled r]"
    using pend m by (simp_all add: wc_receiveMessage_def settle_def)
  have 2: "Suc m + length rs \<le> length (wc_promises ?ch')"
    using Cons.prems(2) by (simp add: ch')
  have 3: "\<forall>j. Suc m \<le> j \<and> j < Suc m + length rs \<longrightarrow> wc_promises ?ch' ! j = Pending"
    using Cons.prems(3) by (simp add: ch')
  note ih = Cons.IH [OF ch'(1) 2 3]
  have a: "length (wc_promises (fold wc_receiveMessage (r # rs) ch)) = length (wc_promises ch)"
    using ih by (simp add: ch')
  have b: "\<forall>j. j < m \<longrightarrow> wc_promises (fold wc_receiveMessage (r # rs) ch) ! j = wc_promises ch ! j"
    using ih by (simp add: ch')
  have c: "\<forall>k. k < length (r # rs) \<longrightarrow>
             wc_promises (fold wc_receiveMessage (r # rs) ch) ! (m + k) = Fulfilled ((r # rs) ! k)"
  proof (intro allI impI)
    fix k assume k: "k < length (r # rs)"
    show "wc_promises (fold wc_receiveMessage (r # rs) ch) ! (m + k) = Fulfilled ((r # rs) ! k)"
    proof (cases k)
      case 0
      have "wc_promises (fold wc_receiveMessage rs ?ch') ! m = wc_promises ?ch' ! m"
        using ih by simp
      then show ?thesis using 0 m by (simp add: ch')
    next
      case (Suc q)
      with k have "q < length rs" by simp
      with ih have "wc_promises (fold wc_receiveMessage rs ?ch') ! (Suc m + q) = Fulfilled (rs ! q)"
        by blast
      then show ?thesis using Suc by simp
    qed
  qed
  have d: "wc_pending (fold wc_receiveMessage (r # rs) ch) = []"
    using ih by simp
  from a b c d show ?case by blast
qed

text \<open>
  Claim C3. On a channel with no request pending, \<open>N\<close> \<^verbatim>\<open>postMessage\<close> calls followed by
  \<open>N\<close> replies delivered in order: the promise returned by the \<open>k\<close>-th call, pending
  after the posts, is fulfilled with the payload of the \<open>k\<close>-th reply (positions counted
  from 0 here).
\<close>

theorem WorkerChannel_fifo:
  assumes "wc_pending ch = []"
    and "wc_post_all msgs ch = (futures, ch1)"
    and "length replies = length msgs"
    and "k < length msgs"
  shows "futures ! k < length (wc_promises (fold wc_receiveMessage replies ch1)) \<and>
         wc_promises ch1 ! (futures ! k) = Pending \<and>
         wc_promises (fold wc_receiveMessage replies ch1) ! (futures ! k) = Fulfilled (replies ! k)"
proof -
  let ?n = "length (wc_promises ch)"
  note p = wc_post_all_props [OF assms(2)]
  have fk: "futures ! k = ?n + k" using p assms(4) by simp
  have 1: "wc_pending ch1 = [?n..<?n + length replies]"
    using p assms(1,3) by simp
  have 2: "?n + length replies \<le> length (wc_promises ch1)"
    using p assms(3) by simp
  have 3: "\<forall>j. ?n \<le> j \<and> j < ?n + length replies \<longrightarrow> wc_promises ch1 ! j = Pending"
    using p assms(3) by (auto simp: nth_append)
  note r = wc_receive_all [OF 1 2 3]
  have "futures ! k < length (wc_promises (fold wc_receiveMessage replies ch1))"
    using r p assms(4) fk by simp
  moreover have "wc_promises ch1 ! (futures ! k) = Pending"
    using 3 fk assms(3,4) by simp
  moreover have "wc_promises (fold wc_receiveMessage replies ch1) ! (futures ! k)
                   = Fulfilled (replies ! k)"
    using r fk assms(3,4) by simp
  ultimately show ?thesis by blast
qed

text \<open>
  The statement at work: three posts on a new channel, three replies.
\<close>

theorem WorkerChannel_fifo_witness:
  "wc_pending (WorkerChannel_new :: (string, string) WorkerChannel) = [] \<and>
   fst (wc_post_all [''m1'', ''m2'', ''m3''] (WorkerChannel_new :: (string, string) WorkerChannel))
     = [0, 1, 2] \<and>
   wc_promises (fold wc_receiveMessage [''r1'', ''r2'', ''r3'']
      (snd (wc_post_all [''m1'', ''m2'', ''m3''] (WorkerChannel_new :: (string, string) WorkerChannel))))
     ! 1 = Fulfilled ''r2''"
proof -
  let ?ch = "WorkerChannel_new :: (string, string) WorkerChannel"
  let ?msgs = "[''m1'', ''m2'', ''m3'']"
  have e: "wc_pending ?ch = []" by (simp add: WorkerChannel_new_def wc_open_def)
  have f: "fst (wc_post_all ?msgs ?ch) = [0, 1, 2]"
    by (simp add: WorkerChannel_new_def wc_open_def wc_postMessage_def)
  have p: "wc_post_all ?msgs ?ch = (fst (wc_post_all ?msgs ?ch), snd (wc_post_all ?msgs ?ch))"
    by simp
  from WorkerChannel_fifo [OF e p, of "[''r1'', ''r2'', ''r3'']" 1]
  have "wc_promises (fold wc_receiveMessage [''r1'', ''r2'', ''r3''] (snd (wc_post_all ?msgs ?ch)))
          ! (fst (wc_post_all ?msgs ?ch) ! 1) = Fulfilled ''r2''"
    by simp
  with e f show ?thesis by simp
qed

text \<open>
  Claim C8 says that a reply received while no request is pending is a fatal error
  after which the channel is closed. On a new channel such a reply leaves the channel
  as it was: nothing is raised, no promise is settled, the handlers stay attached.
\<close>

theorem WorkerChannel_stray_reply_not_closed:
  "wc_pending (WorkerChannel_new :: (string, string) WorkerChannel) = [] \<and>
   wc_receiveMessage ''stray'' (WorkerChannel_new :: (string, string) WorkerChannel)
     = WorkerChannel_new \<and>
   wc_listening (wc_receiveMessage ''stray'' (WorkerChannel_new :: (string, string) WorkerChannel))"
  by (simp add: WorkerChannel_new_def wc_open_def wc_receiveMessage_def)

text \<open>
  Claim C8, as the code has it: a reply received while no request is pending is
  dropped; the channel (its queue, its promises, whether it listens) is unchanged.
\<close>

theorem WorkerChannel_stray_reply_ignored:
  "wc_pending ch = [] \<Longrightarrow> wc_receiveMessage data ch = ch"
  by (simp add: wc_receiveMessage_def)

text \<open>
  The statement at work on a new channel, and on one that has been closed.
\<close>

theorem WorkerChannel_stray_reply_ignored_witness:
  "wc_pending (WorkerChannel_new :: (string, string) WorkerChannel) = [] \<and>
   wc_receiveMessage ''stray'' (wc_close (WorkerChannel_new :: (string, string) WorkerChannel))
     = wc_close WorkerChannel_new \<and>
   wc_receiveMessage ''stray'' (WorkerChannel_new :: (string, string) WorkerChannel)
     = WorkerChannel_new"
proof -
  have e: "wc_pending (WorkerChannel_new :: (string, string) WorkerChannel) = []"
    by (simp add: WorkerChannel_new_def wc_open_def)
  then have c: "wc_pending (wc_close (WorkerChannel_new :: (string, string) WorkerChannel)) = []"
    by (simp add: wc_close_def)
  from e WorkerChannel_stray_reply_ignored [OF e, of "''stray''"]
    WorkerChannel_stray_reply_ignored [OF c, of "''stray''"]
  show ?thesis by simp
qed


section \<open>The decorating sources: properties\<close>

text \<open>
  Claim C4. \<^verbatim>\<open>derive(f, l)\<close> on a prefetching source in state \<open>s\<close>: when the slot holds
  the range \<open>(f, l)\<close> its promise is the one awaited and the wrapped source is not
  called; otherwise the wrapped source is called for \<open>(f, l)\<close>; in both cases the slot is
  \<^verbatim>\<open>null\<close> afterwards. When the awaited promise is fulfilled (the source then being in
  state \<open>s'\<close>), the wrapped source is called for \<open>[l + 1, l + 1 + (l - f)]\<close> and that
  call alone is the slot from then on, in the same step that hands the result back: the
  slot never holds more than the one look-ahead installed last. On a rejection nothing
  is called and the slot is left as it is.
\<close>

theorem PrefatchingSource_derive_one_slot:
  "(\<forall>pf. ps_prefatched s = Some pf \<longrightarrow> pf_firstIndex pf = f \<longrightarrow> pf_lastIndex pf = l \<longrightarrow>
      ps_derive f l s = (pf_promise pf, s\<lparr>ps_prefatched := None\<rparr>)) \<and>
   ((\<forall>pf. ps_prefatched s = Some pf \<longrightarrow> \<not> (pf_firstIndex pf = f \<and> pf_lastIndex pf = l)) \<longrightarrow>
      ps_derive f l s =
        (length (ps_issued s), s\<lparr>ps_issued := ps_issued s @ [(f, l)], ps_prefatched := None\<rparr>)) \<and>
   ps_prefatched (snd (ps_derive f l s)) = None \<and>
   ps_derive_settled f l (Inr result) s' =
     (Inr result,
      s'\<lparr>ps_issued := ps_issued s' @ [(l + 1, l + 1 + (l - f))],
         ps_prefatched := Some \<lparr>pf_firstIndex = l + 1, pf_lastIndex = l + 1 + (l - f),
                                 pf_promise = length (ps_issued s')\<rparr>\<rparr>) \<and>
   ps_derive_settled f l (Inl e) s' = (Inl e, s')"
proof -
  have adopt: "\<forall>pf. ps_prefatched s = Some pf \<longrightarrow> pf_firstIndex pf = f \<longrightarrow> pf_lastIndex pf = l \<longrightarrow>
      ps_derive f l s = (pf_promise pf, s\<lparr>ps_prefatched := None\<rparr>)"
    by (simp add: ps_derive_def)
  have fresh: "(\<forall>pf. ps_prefatched s = Some pf \<longrightarrow> \<not> (pf_firstIndex pf = f \<and> pf_lastIndex pf = l)) \<longrightarrow>
      ps_derive f l s =
        (length (ps_issued s), s\<lparr>ps_issued := ps_issued s @ [(f, l)], ps_prefatched := None\<rparr>)"
    by (cases "ps_prefatched s") (auto simp: ps_derive_def ps_source_derive_def)
  have cleared: "ps_prefatched (snd (ps_derive f l s)) = None"
    by (cases "ps_prefatched s") (simp_all add: ps_derive_def ps_source_derive_def)
  have fulfilled: "ps_derive_settled f l (Inr result) s' =
     (Inr result,
      s'\<lparr>ps_issued := ps_issued s' @ [(l + 1, l + 1 + (l - f))],
         ps_prefatched := Some \<lparr>pf_firstIndex = l + 1, pf_lastIndex = l + 1 + (l - f),
                                 pf_promise = length (ps_issued s')\<rparr>\<rparr>)"
    by (simp add: ps_derive_settled_def ps_derive_then_def ps_source_derive_def Let_def)
  have rejected: "ps_derive_settled f l (Inl e) s' = (Inl e, s')"
    by (simp add: ps_derive_settled_def)
  from adopt fresh cleared fulfilled rejected show ?thesis by blast
qed

text \<open>
  Claim C6. \<^verbatim>\<open>derive(f, l)\<close> on a caching source: when the key of \<open>(f, l)\<close> is in the
  cache, the cached list is returned and the source, call list included, is unchanged;
  on a miss the wrapped source is called once, and the entry is written exactly when
  that call is fulfilled; when it is rejected the rejection is what the caller gets and
  the cache is as before.
\<close>

theorem CachingSource_derive_hit_miss:
  "(\<forall>cached. cs_cache s (cache_key f l) = Some cached \<longrightarrow>
      cs_derive_settled f l outcome s = (Inr cached, s)) \<and>
   (cs_cache s (cache_key f l) = None \<longrightarrow>
      (\<forall>result. outcome = Inr result \<longrightarrow>
         cs_derive_settled f l outcome s =
           (Inr result,
            s\<lparr>cs_issued := cs_issued s @ [(f, l)],
              cs_cache := (cs_cache s)(cache_key f l \<mapsto> result)\<rparr>)) \<and>
      (\<forall>e. outcome = Inl e \<longrightarrow>
         cs_derive_settled f l outcome s = (Inl e, s\<lparr>cs_issued := cs_issued s @ [(f, l)]\<rparr>) \<and>
         cs_cache (snd (cs_derive_settled f l outcome s)) = cs_cache s))"
  by (auto simp: cs_derive_settled_def cs_derive_def cs_derive_then_def Let_def)

text \<open>
  The statement at work: a first request for \<open>[0, 19]\<close> on a new source, its fulfilment,
  and the request for \<open>[20, 39]\<close> that adopts the look-ahead.
\<close>

theorem PrefatchingSource_derive_witness:
  "ps_derive 0 19 PrefatchingSource_new =
     (0, \<lparr>ps_prefatched = None, ps_issued = [(0, 19)]\<rparr>) \<and>
   ps_derive_settled 0 19 (Inr [''a0'']) \<lparr>ps_prefatched = None, ps_issued = [(0, 19)]\<rparr> =
     (Inr [''a0''],
      \<lparr>ps_prefatched = Some \<lparr>pf_firstIndex = 20, pf_lastIndex = 39, pf_promise = 1\<rparr>,
       ps_issued = [(0, 19), (20, 39)]\<rparr>) \<and>
   ps_derive 20 39
      \<lparr>ps_prefatched = Some \<lparr>pf_firstIndex = 20, pf_lastIndex = 39, pf_promise = 1\<rparr>,
       ps_issued = [(0, 19), (20, 39)]\<rparr> =
     (1, \<lparr>ps_prefatched = None, ps_issued = [(0, 19), (20, 39)]\<rparr>)"
proof -
  let ?s1 = "\<lparr>ps_prefatched = None, ps_issued = [(0, 19)]\<rparr>"
  let ?pf = "\<lparr>pf_firstIndex = 20, pf_lastIndex = 39, pf_promise = 1\<rparr>"
  let ?s2 = "\<lparr>ps_prefatched = Some ?pf, ps_issued = [(0, 19), (20, 39)]\<rparr>"
  note t0 = PrefatchingSource_derive_one_slot
    [where s = PrefatchingSource_new and f = 0 and l = 19 and s' = ?s1 and result = "[''a0'']"]
  note t2 = PrefatchingSource_derive_one_slot
    [where s = ?s2 and f = 20 and l = 39 and s' = ?s2]
  have a: "ps_derive 0 19 PrefatchingSource_new = (0, ?s1)"
    using t0 by (simp add: PrefatchingSource_new_def)
  have b: "ps_derive_settled 0 19 (Inr [''a0'']) ?s1 = (Inr [''a0''], ?s2)"
    using t0 by simp
  have c: "ps_derive 20 39 ?s2 = (1, \<lparr>ps_prefatched = None, ps_issued = [(0, 19), (20, 39)]\<rparr>)"
    using t2 by simp
  from a b c show ?thesis by blast
qed

text \<open>
  The statement at work: a miss that is fulfilled, the hit that follows, and a miss that
  is rejected.
\<close>

theorem CachingSource_derive_witness:
  "cs_derive_settled 0 1 (Inr [''a0'', ''a1'']) CachingSource_new =
     (Inr [''a0'', ''a1''],
      \<lparr>cs_cache = [''0-1'' \<mapsto> [''a0'', ''a1'']], cs_issued = [(0, 1)]\<rparr>) \<and>
   cs_derive_settled 0 1 (Inl (Failure ''down''))
      \<lparr>cs_cache = [''0-1'' \<mapsto> [''a0'', ''a1'']], cs_issued = [(0, 1)]\<rparr> =
     (Inr [''a0'', ''a1''],
      \<lparr>cs_cache = [''0-1'' \<mapsto> [''a0'', ''a1'']], cs_issued = [(0, 1)]\<rparr>) \<and>
   cs_derive_settled 2 3 (Inl (Failure ''down''))
      \<lparr>cs_cache = [''0-1'' \<mapsto> [''a0'', ''a1'']], cs_issued = [(0, 1)]\<rparr> =
     (Inl (Failure ''down''),
      \<lparr>cs_cache = [''0-1'' \<mapsto> [''a0'', ''a1'']], cs_issued = [(0, 1), (2, 3)]\<rparr>)"
proof -
  let ?s1 = "\<lparr>cs_cache = [''0-1'' \<mapsto> [''a0'', ''a1'']], cs_issued = [(0, 1)]\<rparr>"
  have k: "cache_key 0 1 = ''0-1''" "cache_key 2 3 = ''2-3''"
    by (simp_all add: cache_key_def show_int_def show_nat.simps)
  note t0 = CachingSource_derive_hit_miss
    [where s = CachingSource_new and f = 0 and l = 1 and outcome = "Inr [''a0'', ''a1'']"]
  note t1 = CachingSource_derive_hit_miss
    [where s = ?s1 and f = 0 and l = 1 and outcome = "Inl (Failure ''down'')"]
  note t2 = CachingSource_derive_hit_miss
    [where s = ?s1 and f = 2 and l = 3 and outcome = "Inl (Failure ''down'')"]
  have a: "cs_derive_settled 0 1 (Inr [''a0'', ''a1'']) CachingSource_new = (Inr [''a0'', ''a1''], ?s1)"
    using t0 by (simp add: k CachingSource_new_def)
  have b: "cs_derive_settled 0 1 (Inl (Failure ''down'')) ?s1 = (Inr [''a0'', ''a1''], ?s1)"
    using t1 by (simp add: k)
  have c: "cs_derive_settled 2 3 (Inl (Failure ''down'')) ?s1 =
     (Inl (Failure ''down''),
      \<lparr>cs_cache = [''0-1'' \<mapsto> [''a0'', ''a1'']], cs_issued = [(0, 1), (2, 3)]\<rparr>)"
    using t2 by (simp add: k)
  from a b c show ?thesis by blast
qed


section \<open>ChainDiscovery: properties\<close>

lemma update_addresses_frame:
  "update_addresses info as (b, d) = (b', d') \<Longrightarrow>
   cd_chain d' = cd_chain d \<and> cd_gapLength d' = cd_gapLength d"
proof (induction as arbitrary: b d)
  case Nil
  then show ?case by simp
next
  case (Cons a as)
  then show ?case by (auto split: option.splits)
qed

lemma update_results_effects:
  "update_results rs (b, d, effs) = (b', d', effs') \<Longrightarrow>
   cd_chain d' = cd_chain d \<and> cd_gapLength d' = cd_gapLength d \<and>
   (\<exists>infos. effs' = effs @ map (\<lambda>i. Emit (Transaction i)) infos)"
proof (induction rs arbitrary: b d effs)
  case Nil
  then show ?case by simp
next
  case (Cons r rs)
  obtain a d1 where ua: "update_addresses (lr_info r) (lr_addresses r) (False, d) = (a, d1)"
    by (cases "update_addresses (lr_info r) (lr_addresses r) (False, d)") auto
  note fr = update_addresses_frame [OF ua]
  show ?case
  proof (cases a)
    case True
    let ?d2 = "d1\<lparr>cd_history := (cd_history d1)\<lparr>hist_database :=
                 db_update (lr_info r) (hist_database (cd_history d1))\<rparr>\<rparr>"
    from Cons.prems ua True
    have "update_results rs (True, ?d2, effs @ [Emit (Transaction (lr_info r))]) = (b', d', effs')"
      by simp
    from Cons.IH [OF this] obtain infos where
      "cd_chain d' = cd_chain ?d2" "cd_gapLength d' = cd_gapLength ?d2"
      "effs' = (effs @ [Emit (Transaction (lr_info r))]) @ map (\<lambda>i. Emit (Transaction i)) infos"
      by blast
    then have "cd_chain d' = cd_chain d" "cd_gapLength d' = cd_gapLength d"
      "effs' = effs @ map (\<lambda>i. Emit (Transaction i)) (lr_info r # infos)"
      using fr by simp_all
    then show ?thesis by blast
  next
    case False
    from Cons.prems ua False
    have "update_results rs (b, d1, effs) = (b', d', effs')" by simp
    from Cons.IH [OF this] fr show ?thesis by simp
  qed
qed

text \<open>
  Claim C1. In every call of \<^verbatim>\<open>update\<close>, from every state and for every batch of
  results: when \<^verbatim>\<open>history\<close> is emitted, it is the last thing \<^verbatim>\<open>update\<close> does, it
  carries the history of that moment, and \<open>Chain.nextIndex - ChainHistory.nextIndex\<close>
  is at least \<^verbatim>\<open>gapLength\<close> then; when \<^verbatim>\<open>update\<close> instead resumes the scan (the call
  \<^verbatim>\<open>this.next()\<close>), that difference is strictly below \<^verbatim>\<open>gapLength\<close> at the call.
  \<^verbatim>\<open>update\<close> changes neither the chain nor \<^verbatim>\<open>gapLength\<close>.
\<close>

theorem ChainDiscovery_update_gap_rule:
  assumes "cd_update results d = (d', effects)"
  shows "(\<forall>h. Emit (History h) \<in> set effects \<longrightarrow>
            cd_gapLength d' \<le> int (chain_nextIndex (cd_chain d')) - int (hist_nextIndex (cd_history d')) \<and>
            h = cd_history d' \<and> last effects = Emit (History h)) \<and>
         (Call_next \<in> set effects \<longrightarrow>
            int (chain_nextIndex (cd_chain d')) - int (hist_nextIndex (cd_history d')) < cd_gapLength d' \<and>
            last effects = Call_next) \<and>
         cd_chain d' = cd_chain d \<and> cd_gapLength d' = cd_gapLength d"
proof -
  obtain b d1 effs where ur: "update_results results (False, d, []) = (b, d1, effs)"
    by (cases "update_results results (False, d, [])") auto
  from update_results_effects [OF ur] obtain infos where
    fr: "cd_chain d1 = cd_chain d" "cd_gapLength d1 = cd_gapLength d"
    and effs: "effs = map (\<lambda>i. Emit (Transaction i)) infos"
    by auto
  have nohist: "\<And>h. Emit (History h) \<notin> set effs" and nonext: "Call_next \<notin> set effs"
    unfolding effs by auto
  consider (none) "\<not> b" | (resume) "b" "cd_gap d1 < cd_gapLength d1"
    | (finish) "b" "\<not> cd_gap d1 < cd_gapLength d1"
    by blast
  then show ?thesis
  proof cases
    case none
    with assms ur have "d' = d1" "effects = effs" by (auto simp: cd_update_def)
    with nohist nonext fr show ?thesis by simp
  next
    case resume
    with assms ur have "d' = d1" "effects = effs @ [Call_next]" by (auto simp: cd_update_def)
    with nohist nonext fr resume(2) show ?thesis by (simp add: cd_gap_def)
  next
    case finish
    with assms ur have "d' = d1" "effects = effs @ [Emit (History (cd_history d1))]"
      by (auto simp: cd_update_def)
    with nohist nonext fr finish(2) show ?thesis by (auto simp: cd_gap_def)
  qed
qed

text \<open>
  The statement at work on a chain of two addresses, with one transaction on the first:
  with \<^verbatim>\<open>gapLength\<close> 2 the scan resumes (gap 1), with \<^verbatim>\<open>gapLength\<close> 1 \<^verbatim>\<open>history\<close> is
  emitted.
\<close>

theorem ChainDiscovery_update_gap_witness:
  "snd (cd_update results_a0 (ChainDiscovery_new chain_a01 (ChainHistory_new TxDatabase_new) 2))
     = [Emit (Transaction info_a), Call_next] \<and>
   int (chain_nextIndex (cd_chain (fst (cd_update results_a0
          (ChainDiscovery_new chain_a01 (ChainHistory_new TxDatabase_new) 2)))))
     - int (hist_nextIndex (cd_history (fst (cd_update results_a0
          (ChainDiscovery_new chain_a01 (ChainHistory_new TxDatabase_new) 2))))) < 2 \<and>
   snd (cd_update results_a0 (ChainDiscovery_new chain_a01 (ChainHistory_new TxDatabase_new) 1))
     = [Emit (Transaction info_a),
        Emit (History (cd_history (fst (cd_update results_a0
          (ChainDiscovery_new chain_a01 (ChainHistory_new TxDatabase_new) 1)))))] \<and>
   1 \<le> int (chain_nextIndex (cd_chain (fst (cd_update results_a0
          (ChainDiscovery_new chain_a01 (ChainHistory_new TxDatabase_new) 1)))))
     - int (hist_nextIndex (cd_history (fst (cd_update results_a0
          (ChainDiscovery_new chain_a01 (ChainHistory_new TxDatabase_new) 1)))))"
proof -
  let ?d2 = "ChainDiscovery_new chain_a01 (ChainHistory_new TxDatabase_new) 2"
  let ?d1 = "ChainDiscovery_new chain_a01 (ChainHistory_new TxDatabase_new) 1"
  have e2: "snd (cd_update results_a0 ?d2) = [Emit (Transaction info_a), Call_next]"
    by (simp add: cd_update_def results_a0_def ChainDiscovery_new_def chain_a01_def
        chain_indexOf_def hist_update_def ChainHistory_new_def cd_gap_def)
  have e1: "snd (cd_update results_a0 ?d1) =
      [Emit (Transaction info_a), Emit (History (cd_history (fst (cd_update results_a0 ?d1))))]"
    by (simp add: cd_update_def results_a0_def ChainDiscovery_new_def chain_a01_def
        chain_indexOf_def hist_update_def ChainHistory_new_def cd_gap_def)
  have g2: "cd_gapLength (fst (cd_update results_a0 ?d2)) = 2"
    and g1: "cd_gapLength (fst (cd_update results_a0 ?d1)) = 1"
    by (simp_all add: cd_update_def results_a0_def ChainDiscovery_new_def chain_a01_def
        chain_indexOf_def hist_update_def ChainHistory_new_def cd_gap_def)
  note t2 = ChainDiscovery_update_gap_rule
    [where results = results_a0 and d = ?d2 and d' = "fst (cd_update results_a0 ?d2)"
       and effects = "snd (cd_update results_a0 ?d2)", OF prod.collapse [symmetric]]
  note t1 = ChainDiscovery_update_gap_rule
    [where results = results_a0 and d = ?d1 and d' = "fst (cd_update results_a0 ?d1)"
       and effects = "snd (cd_update results_a0 ?d1)", OF prod.collapse [symmetric]]
  have "Call_next \<in> set (snd (cd_update results_a0 ?d2))" by (simp add: e2)
  with t2 have "int (chain_nextIndex (cd_chain (fst (cd_update results_a0 ?d2))))
     - int (hist_nextIndex (cd_history (fst (cd_update results_a0 ?d2))))
     < cd_gapLength (fst (cd_update results_a0 ?d2))"
    by blast
  then have a: "int (chain_nextIndex (cd_chain (fst (cd_update results_a0 ?d2))))
     - int (hist_nextIndex (cd_history (fst (cd_update results_a0 ?d2)))) < 2"
    by (simp only: g2)
  have "Emit (History (cd_history (fst (cd_update results_a0 ?d1))))
          \<in> set (snd (cd_update results_a0 ?d1))"
    by (subst e1) simp
  with t1 have "cd_gapLength (fst (cd_update results_a0 ?d1))
     \<le> int (chain_nextIndex (cd_chain (fst (cd_update results_a0 ?d1))))
     - int (hist_nextIndex (cd_history (fst (cd_update results_a0 ?d1))))"
    by blast
  then have b: "1 \<le> int (chain_nextIndex (cd_chain (fst (cd_update results_a0 ?d1))))
     - int (hist_nextIndex (cd_history (fst (cd_update results_a0 ?d1))))"
    by (simp only: g1)
  from e2 a e1 b show ?thesis by blast
qed

lemma cd_update_no_results: "cd_update [] d = (d, [])"
  by (simp add: cd_update_def)

lemma chain_forEach_nextIndex:
  "chain_nextIndex (chain_forEach firstIndex i as c) = chain_nextIndex c + length as"
  by (induction as arbitrary: i c) simp_all

lemma cd_nextChunk_no_results:
  assumes "chain_nextChunk derive (cd_chain d) = Inr (as, c')"
    and "bc_lookupTxs bc as (cd_untilHeight d) (cd_sinceHeight d) = Inr []"
  shows "cd_nextChunk derive bc d = (d\<lparr>cd_chain := c'\<rparr>, [], as)"
  using assms by (simp add: cd_nextChunk_def cd_update_no_results)

lemma cd_start_never_history: "History h \<notin> set (fst (snd (cd_start bc d)))"
  by (simp add: cd_start_def split: sum.splits)

text \<open>
  Claim C2 expects, for a cold scan of an empty chain, one chunk derived and one
  \<^verbatim>\<open>history\<close> event with \<^verbatim>\<open>nextIndex\<close> 0. On fresh state with a backend that has no
  transactions, \<^verbatim>\<open>start()\<close> resolves the block range, registers its handler and then
  fails on \<^verbatim>\<open>this.next()\<close>: the only event is \<^verbatim>\<open>error\<close>, and no chunk is derived.
  \<^verbatim>\<open>nextChunk()\<close> called on the same state derives one chunk of 20 (the gap is then
  20, \<^verbatim>\<open>gapLength\<close> is 20) and emits nothing, since \<^verbatim>\<open>update([])\<close> does not reach
  the gap test.
\<close>

theorem cold_scan_no_history_event:
  "cd_start bc_empty d_fresh =
     (d_fresh\<lparr>cd_sinceHeight := Some (Height 0),
              cd_untilHeight := Some (Hash ''tip''),
              cd_history := (cd_history d_fresh)\<lparr>hist_untilBlock := Some (Height 100)\<rparr>\<rparr>,
      [Error next_undefined], True) \<and>
   chain_nextIndex (cd_chain (fst (cd_start bc_empty d_fresh))) = 0 \<and>
   fst (snd (cd_nextChunk numbered bc_empty d_fresh)) = [] \<and>
   chain_nextIndex (cd_chain (fst (cd_nextChunk numbered bc_empty d_fresh))) = 20 \<and>
   hist_nextIndex (cd_history (fst (cd_nextChunk numbered bc_empty d_fresh))) = 0 \<and>
   cd_gapLength (fst (cd_nextChunk numbered bc_empty d_fresh)) = 20"
proof -
  have s: "cd_start bc_empty d_fresh =
     (d_fresh\<lparr>cd_sinceHeight := Some (Height 0),
              cd_untilHeight := Some (Hash ''tip''),
              cd_history := (cd_history d_fresh)\<lparr>hist_untilBlock := Some (Height 100)\<rparr>\<rparr>,
      [Error next_undefined], True)"
    by (simp add: cd_start_def cd_updateBlockInfo_def getBlockRange_def bc_empty_def d_fresh_def
        ChainDiscovery_new_def ChainHistory_new_def)
  have n0: "chain_nextIndex (cd_chain (fst (cd_start bc_empty d_fresh))) = 0"
    unfolding s by (simp add: d_fresh_def ChainDiscovery_new_def Chain_new_def)
  let ?as = "map (\<lambda>i. ''addr'' @ show_int i) [0..19]"
  let ?c' = "chain_forEach 0 0 ?as (Chain_new 20)"
  have c: "chain_nextChunk numbered (cd_chain d_fresh) = Inr (?as, ?c')"
    by (simp add: chain_nextChunk_def numbered_def d_fresh_def ChainDiscovery_new_def Chain_new_def)
  have l: "bc_lookupTxs bc_empty ?as (cd_untilHeight d_fresh) (cd_sinceHeight d_fresh) = Inr []"
    by (simp add: bc_empty_def)
  note n = cd_nextChunk_no_results [OF c l]
  have n20: "chain_nextIndex ?c' = 20"
    by (simp add: chain_forEach_nextIndex Chain_new_def)
  from s n0 n n20 show ?thesis
    by (simp add: d_fresh_def ChainDiscovery_new_def ChainHistory_new_def)
qed


end
